theory Spec2Isabelle
  imports Main "HOL-Library.Word"
begin

section \<open>Data model of the backlog manager\<close>

text \<open>
  The structs that \<^verbatim>\<open>backlogmgr.go\<close> works on. \<^verbatim>\<open>rule\<close>, \<^verbatim>\<open>directive\<close> and \<^verbatim>\<open>backLog\<close>
  are declared in other files of package \<^verbatim>\<open>siem\<close>; they are records of the fields that
  \<^verbatim>\<open>backlogmgr.go\<close> reads or writes, with the types it uses them at. Go's \<^verbatim>\<open>int\<close> is
  a 64-bit two's complement number; it is a \<^typ>\<open>64 word\<close> where the manager subtracts
  from it and indexes with the result, and an \<^typ>\<open>int\<close> where it is only stored,
  compared or printed.
\<close>

record rule =
  From :: string
  To :: string
  PortFrom :: string
  PortTo :: string
  Status :: string
  StartTime :: int

text \<open>
  Modelled from the spec: package \<^verbatim>\<open>event\<close> is not among the sources. The manager reads
  \<^verbatim>\<open>ConnID\<close>, \<^verbatim>\<open>SrcIP\<close>, \<^verbatim>\<open>DstIP\<close>, \<^verbatim>\<open>SrcPort\<close> and \<^verbatim>\<open>DstPort\<close> of an event; the
  spec gives it "a timestamp" as well, which is a number of seconds here, as the start
  time of a rule is.
\<close>

record NormalizedEvent =
  ConnID :: nat
  SrcIP :: string
  DstIP :: string
  SrcPort :: int
  DstPort :: int
  Timestamp :: int

text \<open>
  A Go slice \<^verbatim>\<open>[]rule\<close> is a reference to an array, so the \<^verbatim>\<open>Rules\<close> field of a
  directive is the address of its array in a store of rule arrays. An address the store
  does not hold is the nil slice, of length 0. \<^verbatim>\<open>DId\<close> is the field \<^verbatim>\<open>directive.ID\<close>
  and \<^verbatim>\<open>BId\<close> the field \<^verbatim>\<open>backLog.ID\<close> (the names the source's log calls give them).
\<close>

type_synonym heap = "rule list list"

definition rulesAt :: "heap \<Rightarrow> nat \<Rightarrow> rule list" where
  "rulesAt h a = (if a < length h then h ! a else [])"

record directive =
  DId :: int
  Rules :: nat

record backLog =
  BId :: string
  Directive :: directive
  CurrentStage :: int
  HighestStage :: int
  bLogs :: "nat option"

text \<open>
  \<^verbatim>\<open>type backlogs struct { sync.RWMutex; id int; bl map[string]*backLog }\<close>. The field
  \<^verbatim>\<open>id\<close> is \<^verbatim>\<open>gid\<close> here. A pointer to a group is its index in \<^verbatim>\<open>allBacklogs\<close>.
\<close>

record backlogs =
  gid :: int
  bl :: "string \<rightharpoonup> backLog"

record removalChannelMsg =
  blogs :: nat
  ID :: string

record world =
  allBacklogs :: "backlogs list"
  heap :: heap

text \<open>
  What a call can end with other than its result: the error value that
  \<^verbatim>\<open>idgen.GenerateID\<close> returns, and the run-time panic of an index out of range or of a
  nil pointer.
\<close>

datatype error = IdGenError | Panic

text \<open>
  The lock operations, map writes, logged warnings and calls into other files that one
  run of a function performs, in program order. \<^verbatim>\<open>Test k idx\<close> is the call of
  \<^verbatim>\<open>doesEventMatchRule\<close> on rule \<^verbatim>\<open>idx\<close> of the backlog under key \<^verbatim>\<open>k\<close>, \<^verbatim>\<open>TestStage1\<close>
  the one on \<^verbatim>\<open>d.Rules[0]\<close>; \<^verbatim>\<open>Dispatch\<close> is \<^verbatim>\<open>go ...processMatchedEvent\<close>, \<^verbatim>\<open>Process\<close>
  the same call made synchronously.
\<close>

datatype action =
    Lock nat | Unlock nat | RLock nat | RUnlock nat
  | GLock | GUnlock | GRLock | GRUnlock
  | Test string nat | TestStage1
  | Dispatch string nat | Process string nat
  | Insert string | Delete string
  | Warn
  | CheckExpired nat string

section \<open>Helpers from other packages\<close>

text \<open>\<^verbatim>\<open>strconv.Itoa\<close> of the Go standard library: the decimal digits, with a minus sign.\<close>

definition digitChar :: "nat \<Rightarrow> char" where
  "digitChar n = ''0123456789'' ! n"

fun natStr :: "nat \<Rightarrow> string" where
  "natStr n = (if n < 10 then [digitChar n] else natStr (n div 10) @ [digitChar (n mod 10)])"

declare natStr.simps [simp del]

definition Itoa :: "int \<Rightarrow> string" where
  "Itoa i = (if i < 0 then CHR ''-'' # natStr (nat (- i)) else natStr (nat i))"

text \<open>
  Modelled from the spec: \<^verbatim>\<open>str.RefToDigit\<close> (package
  \<^verbatim>\<open>dsiem/internal/shared/pkg/str\<close>) is not among the sources. The spec calls a
  reference a value that "parses as a 1-based stage number", and the comment in
  \<^verbatim>\<open>initBackLogRules\<close> gives its format as \<^verbatim>\<open>:ref\<close>: a colon followed by the decimal
  digits of the stage. Every general theorem below takes the parser as a parameter
  \<open>rtd\<close>; this definition is the parser of the concrete runs.
\<close>

definition isDigit :: "char \<Rightarrow> bool" where
  "isDigit c = (c \<in> set ''0123456789'')"

definition digitVal :: "char \<Rightarrow> nat" where
  "digitVal c = of_char c - 48"

definition decimal :: "string \<Rightarrow> nat" where
  "decimal ds = foldl (\<lambda>n c. 10 * n + digitVal c) 0 ds"

definition RefToDigit :: "string \<Rightarrow> 64 word option" where
  "RefToDigit s =
     (case s of
        [] \<Rightarrow> None
      | c # ds \<Rightarrow>
          if c = CHR '':'' \<and> ds \<noteq> [] \<and> list_all isDigit ds \<and> decimal ds < 2 ^ 63
          then Some (word_of_nat (decimal ds))
          else None)"

section \<open>Reference resolution: \<^verbatim>\<open>initBackLogRules\<close>\<close>

text \<open>
  \<^verbatim>\<open>d.Rules[vmin1]\<close>: the index is a signed 64-bit number, and Go panics when it is
  negative or not below the length.
\<close>

definition index :: "rule list \<Rightarrow> 64 word \<Rightarrow> error + rule" where
  "index rs vmin1 =
     (if 0 \<le> sint vmin1 \<and> sint vmin1 < int (length rs) then Inr (rs ! nat (sint vmin1))
      else Inl Panic)"

text \<open>
  The four blocks of the loop body, lines 213 to 255. Each reads field \<^verbatim>\<open>r\<close> of rule
  \<open>i\<close>, and when it parses as a reference to stage \<open>v\<close> reads the same field of
  \<^verbatim>\<open>d.Rules[v - 1]\<close> in the array as it is now, and overwrites the field of rule \<open>i\<close>.
  The array is the state, passed in and returned.
\<close>

definition resolveFrom ::
  "(string \<Rightarrow> 64 word option) \<Rightarrow> NormalizedEvent \<Rightarrow> nat \<Rightarrow> rule list \<Rightarrow> error + rule list" where
  "resolveFrom rtd e i rs =
     (case rtd (From (rs ! i)) of
        None \<Rightarrow> Inr rs
      | Some v \<Rightarrow>
          (case index rs (v - 1) of
             Inl err \<Rightarrow> Inl err
           | Inr q \<Rightarrow>
               let ref = From q in
               if ref \<noteq> ''ANY'' \<and> ref \<noteq> ''HOME_NET'' \<and> ref \<noteq> ''!HOME_NET''
               then Inr (rs[i := (rs ! i)\<lparr>From := ref\<rparr>])
               else Inr (rs[i := (rs ! i)\<lparr>From := SrcIP e\<rparr>])))"

definition resolveTo ::
  "(string \<Rightarrow> 64 word option) \<Rightarrow> NormalizedEvent \<Rightarrow> nat \<Rightarrow> rule list \<Rightarrow> error + rule list" where
  "resolveTo rtd e i rs =
     (case rtd (To (rs ! i)) of
        None \<Rightarrow> Inr rs
      | Some v \<Rightarrow>
          (case index rs (v - 1) of
             Inl err \<Rightarrow> Inl err
           | Inr q \<Rightarrow>
               let ref = To q in
               if ref \<noteq> ''ANY'' \<and> ref \<noteq> ''HOME_NET'' \<and> ref \<noteq> ''!HOME_NET''
               then Inr (rs[i := (rs ! i)\<lparr>To := ref\<rparr>])
               else Inr (rs[i := (rs ! i)\<lparr>To := DstIP e\<rparr>])))"

definition resolvePortFrom ::
  "(string \<Rightarrow> 64 word option) \<Rightarrow> NormalizedEvent \<Rightarrow> nat \<Rightarrow> rule list \<Rightarrow> error + rule list" where
  "resolvePortFrom rtd e i rs =
     (case rtd (PortFrom (rs ! i)) of
        None \<Rightarrow> Inr rs
      | Some v \<Rightarrow>
          (case index rs (v - 1) of
             Inl err \<Rightarrow> Inl err
           | Inr q \<Rightarrow>
               let ref = PortFrom q in
               if ref \<noteq> ''ANY''
               then Inr (rs[i := (rs ! i)\<lparr>PortFrom := ref\<rparr>])
               else Inr (rs[i := (rs ! i)\<lparr>PortFrom := Itoa (SrcPort e)\<rparr>])))"

definition resolvePortTo ::
  "(string \<Rightarrow> 64 word option) \<Rightarrow> NormalizedEvent \<Rightarrow> nat \<Rightarrow> rule list \<Rightarrow> error + rule list" where
  "resolvePortTo rtd e i rs =
     (case rtd (PortTo (rs ! i)) of
        None \<Rightarrow> Inr rs
      | Some v \<Rightarrow>
          (case index rs (v - 1) of
             Inl err \<Rightarrow> Inl err
           | Inr q \<Rightarrow>
               let ref = PortTo q in
               if ref \<noteq> ''ANY''
               then Inr (rs[i := (rs ! i)\<lparr>PortTo := ref\<rparr>])
               else Inr (rs[i := (rs ! i)\<lparr>PortTo := Itoa (DstPort e)\<rparr>])))"

text \<open>One pass of the loop body for index \<open>i\<close>: a panic in a block ends the run.\<close>

definition initRule ::
  "(string \<Rightarrow> 64 word option) \<Rightarrow> NormalizedEvent \<Rightarrow> nat \<Rightarrow> rule list \<Rightarrow> error + rule list" where
  "initRule rtd e i rs =
     (if i = 0 then Inr (rs[i := (rs ! i)\<lparr>Status := ''active''\<rparr>])
      else
        (case resolveFrom rtd e i (rs[i := (rs ! i)\<lparr>Status := ''inactive''\<rparr>]) of
           Inl err \<Rightarrow> Inl err
         | Inr rs1 \<Rightarrow>
             (case resolveTo rtd e i rs1 of
                Inl err \<Rightarrow> Inl err
              | Inr rs2 \<Rightarrow>
                  (case resolvePortFrom rtd e i rs2 of
                     Inl err \<Rightarrow> Inl err
                   | Inr rs3 \<Rightarrow> resolvePortTo rtd e i rs3))))"

text \<open>\<^verbatim>\<open>for i := range d.Rules\<close>: the indices in increasing order, the length read once.\<close>

fun initLoop ::
  "(string \<Rightarrow> 64 word option) \<Rightarrow> NormalizedEvent \<Rightarrow> nat list \<Rightarrow> rule list \<Rightarrow> error + rule list" where
  "initLoop rtd e [] rs = Inr rs"
| "initLoop rtd e (i # is) rs =
     (case initRule rtd e i rs of
        Inl err \<Rightarrow> Inl err
      | Inr rs' \<Rightarrow> initLoop rtd e is rs')"

definition initBackLogRules ::
  "(string \<Rightarrow> 64 word option) \<Rightarrow> NormalizedEvent \<Rightarrow> rule list \<Rightarrow> error + rule list" where
  "initBackLogRules rtd e rs = initLoop rtd e [0..<length rs] rs"


text \<open>
  Vocabulary for the statements about \<^verbatim>\<open>initBackLogRules\<close>: the wildcard classes of an
  address and of a port, the index \<^verbatim>\<open>vmin1\<close> of stage \<open>v\<close>, the condition under which
  that index is inside an array of \<open>n\<close> rules, and the array as the body for index \<open>i\<close>
  finds it: the rules before \<open>i\<close> as the run leaves them, the rules from \<open>i\<close> on as
  they came in.
\<close>

definition isIPClass :: "string \<Rightarrow> bool" where
  "isIPClass s = (s = ''ANY'' \<or> s = ''HOME_NET'' \<or> s = ''!HOME_NET'')"

definition isAny :: "string \<Rightarrow> bool" where
  "isAny s = (s = ''ANY'')"

definition stageIdx :: "64 word \<Rightarrow> nat" where
  "stageIdx v = nat (sint (v - 1))"

definition refOK :: "(string \<Rightarrow> 64 word option) \<Rightarrow> nat \<Rightarrow> string \<Rightarrow> bool" where
  "refOK rtd n r =
     (case rtd r of None \<Rightarrow> True | Some v \<Rightarrow> 0 \<le> sint (v - 1) \<and> sint (v - 1) < int n)"

definition rulesOK :: "(string \<Rightarrow> 64 word option) \<Rightarrow> nat \<Rightarrow> rule \<Rightarrow> bool" where
  "rulesOK rtd n r =
     (refOK rtd n (From r) \<and> refOK rtd n (To r) \<and>
      refOK rtd n (PortFrom r) \<and> refOK rtd n (PortTo r))"

definition refsInRange :: "(string \<Rightarrow> 64 word option) \<Rightarrow> rule list \<Rightarrow> bool" where
  "refsInRange rtd rs =
     (\<forall>i. 0 < i \<and> i < length rs \<longrightarrow> rulesOK rtd (length rs) (rs ! i))"

definition seen :: "rule list \<Rightarrow> rule list \<Rightarrow> nat \<Rightarrow> rule list" where
  "seen rs rs' i = take i rs' @ drop i rs"

definition resolved ::
  "(string \<Rightarrow> 64 word option) \<Rightarrow> (rule \<Rightarrow> string) \<Rightarrow> (string \<Rightarrow> bool) \<Rightarrow> string \<Rightarrow>
   rule list \<Rightarrow> string \<Rightarrow> string" where
  "resolved rtd get wild sub cur r =
     (case rtd r of
        None \<Rightarrow> r
      | Some v \<Rightarrow> (let ref = get (cur ! stageIdx v) in if wild ref then sub else ref))"

definition newRule ::
  "(string \<Rightarrow> 64 word option) \<Rightarrow> NormalizedEvent \<Rightarrow> rule list \<Rightarrow> rule \<Rightarrow> rule" where
  "newRule rtd e cur r =
     r\<lparr>Status := ''inactive'',
       From := resolved rtd From isIPClass (SrcIP e) cur (From r),
       To := resolved rtd To isIPClass (DstIP e) cur (To r),
       PortFrom := resolved rtd PortFrom isAny (Itoa (SrcPort e)) cur (PortFrom r),
       PortTo := resolved rtd PortTo isAny (Itoa (DstPort e)) cur (PortTo r)\<rparr>"

definition frame :: "nat \<Rightarrow> rule list \<Rightarrow> rule list \<Rightarrow> bool" where
  "frame i rs rs' = (length rs' = length rs \<and> (\<forall>j. j \<noteq> i \<longrightarrow> rs' ! j = rs ! j))"

text \<open>A rule none of whose four fields parses as a reference.\<close>

definition concrete :: "(string \<Rightarrow> 64 word option) \<Rightarrow> rule \<Rightarrow> bool" where
  "concrete rtd r =
     (rtd (From r) = None \<and> rtd (To r) = None \<and>
      rtd (PortFrom r) = None \<and> rtd (PortTo r) = None)"

text \<open>
  A template whose references all point backwards: the fields of stage 1 are no
  references, and a reference in the rule at index \<open>i\<close> names a stage \<open>K\<close> with
  \<open>1 \<le> K \<le> i\<close>, the stage of an earlier rule.
\<close>

definition backRef :: "(string \<Rightarrow> 64 word option) \<Rightarrow> nat \<Rightarrow> string \<Rightarrow> bool" where
  "backRef rtd i r =
     (case rtd r of None \<Rightarrow> True | Some v \<Rightarrow> 1 \<le> sint v \<and> sint v \<le> int i)"

definition backwardOnly :: "(string \<Rightarrow> 64 word option) \<Rightarrow> rule list \<Rightarrow> bool" where
  "backwardOnly rtd rs =
     ((rs \<noteq> [] \<longrightarrow> concrete rtd (rs ! 0)) \<and>
      (\<forall>i. 0 < i \<and> i < length rs \<longrightarrow>
         backRef rtd i (From (rs ! i)) \<and> backRef rtd i (To (rs ! i)) \<and>
         backRef rtd i (PortFrom (rs ! i)) \<and> backRef rtd i (PortTo (rs ! i))))"

text \<open>An event whose addresses and printed ports are no references themselves.\<close>

definition plainEvent :: "(string \<Rightarrow> 64 word option) \<Rightarrow> NormalizedEvent \<Rightarrow> bool" where
  "plainEvent rtd e =
     (rtd (SrcIP e) = None \<and> rtd (DstIP e) = None \<and>
      rtd (Itoa (SrcPort e)) = None \<and> rtd (Itoa (DstPort e)) = None)"

section \<open>Backlog creation: \<^verbatim>\<open>createNewBackLog\<close>\<close>

text \<open>
  Modelled from the spec: \<^verbatim>\<open>copyDirective\<close> (another file of package \<^verbatim>\<open>siem\<close>) is not
  among the sources. The spec gives the backlog "a deep copy of the directive": the
  template's fields, with a rule array of its own that holds the template's rules. The
  new array takes the first free address of the store.
\<close>

definition copyDirective :: "heap \<Rightarrow> directive \<Rightarrow> NormalizedEvent \<Rightarrow> heap \<times> directive" where
  "copyDirective h src e = (h @ [rulesAt h (Rules src)], src\<lparr>Rules := length h\<rparr>)"

text \<open>
  \<^verbatim>\<open>createNewBackLog\<close>, lines 178 to 197. \<open>genID\<close> is what \<^verbatim>\<open>idgen.GenerateID()\<close>
  returns (\<open>None\<close> for an error), \<open>now\<close> what \<^verbatim>\<open>time.Now().Unix()\<close> returns. The store
  is passed in and returned; \<^verbatim>\<open>initBackLogRules\<close> runs on the array of the copy, and
  \<^verbatim>\<open>b.Directive.Rules[0]\<close> panics on an empty array.
\<close>

definition createNewBackLog ::
  "(string \<Rightarrow> 64 word option) \<Rightarrow> string option \<Rightarrow> int \<Rightarrow> heap \<Rightarrow> directive \<Rightarrow>
   NormalizedEvent \<Rightarrow> error + backLog \<times> heap" where
  "createNewBackLog rtd genID now h d e =
     (case genID of
        None \<Rightarrow> Inl IdGenError
      | Some bid \<Rightarrow>
          (let (h1, dir) = copyDirective h d e in
           case initBackLogRules rtd e (rulesAt h1 (Rules dir)) of
             Inl err \<Rightarrow> Inl err
           | Inr rs \<Rightarrow>
               if rs = [] then Inl Panic
               else
                 let h2 = h1[Rules dir := rs[0 := (rs ! 0)\<lparr>StartTime := now\<rparr>]] in
                 Inr (\<lparr>BId = bid, Directive = dir, CurrentStage = 1,
                       HighestStage = int (length (rulesAt h2 (Rules d))), bLogs = None\<rparr>,
                      h2)))"

section \<open>The event loop of a group: \<^verbatim>\<open>manager\<close>\<close>

text \<open>
  \<^verbatim>\<open>for _, v := range blogs.bl\<close>, lines 121 to 145. Go fixes no order for the keys of a
  map, so the order \<open>ks\<close> in which the run-time system hands them out is an argument.
  The result is the list of tests made and, when one matched, the \<^verbatim>\<open>v.ID\<close> and the rule
  index that go to \<^verbatim>\<open>processMatchedEvent\<close>. \<^verbatim>\<open>v.Directive.Rules[idx]\<close> panics when
  \<^verbatim>\<open>idx\<close> is not below the length (\<^verbatim>\<open>idx\<close> is positive there).
\<close>

type_synonym matcher = "NormalizedEvent \<Rightarrow> rule \<Rightarrow> nat \<Rightarrow> bool"

fun scanBacklogs ::
  "matcher \<Rightarrow> heap \<Rightarrow> directive \<Rightarrow> NormalizedEvent \<Rightarrow> (string \<rightharpoonup> backLog) \<Rightarrow> string list \<Rightarrow>
   error + action list \<times> (string \<times> nat) option" where
  "scanBacklogs doesEventMatchRule h d e m [] = Inr ([], None)"
| "scanBacklogs doesEventMatchRule h d e m (k # ks) =
     (case m k of
        None \<Rightarrow> scanBacklogs doesEventMatchRule h d e m ks
      | Some v \<Rightarrow>
          if DId (Directive v) \<noteq> DId d \<or> CurrentStage v \<le> 1
          then scanBacklogs doesEventMatchRule h d e m ks
          else if \<not> CurrentStage v - 1 < int (length (rulesAt h (Rules (Directive v))))
          then Inl Panic
          else if \<not> doesEventMatchRule e
                 (rulesAt h (Rules (Directive v)) ! nat (CurrentStage v - 1)) (ConnID e)
          then
            (case scanBacklogs doesEventMatchRule h d e m ks of
               Inl err \<Rightarrow> Inl err
             | Inr (tr, r) \<Rightarrow> Inr (Test k (nat (CurrentStage v - 1)) # tr, r))
          else Inr ([Test k (nat (CurrentStage v - 1))],
                    Some (BId v, nat (CurrentStage v - 1))))"

text \<open>
  One pass of the loop body, lines 113 to 174, for the group at index \<open>self\<close> of
  \<^verbatim>\<open>allBacklogs\<close>. The result is the world after the pass and the trace of the pass. What
  \<^verbatim>\<open>processMatchedEvent\<close> (another file) does to a backlog is not part of the pass: the
  trace records the call.
\<close>

definition managerStep ::
  "(string \<Rightarrow> 64 word option) \<Rightarrow> matcher \<Rightarrow> nat \<Rightarrow> directive \<Rightarrow> NormalizedEvent \<Rightarrow>
   string list \<Rightarrow> string option \<Rightarrow> int \<Rightarrow> world \<Rightarrow> error + world \<times> action list" where
  "managerStep rtd doesEventMatchRule self d e ks genID now w =
     (if \<not> self < length (allBacklogs w) then Inl Panic
      else
        case scanBacklogs doesEventMatchRule (heap w) d e (bl (allBacklogs w ! self)) ks of
          Inl err \<Rightarrow> Inl err
        | Inr (tests, Some (bid, idx)) \<Rightarrow>
            Inr (w, Lock self # tests @ [Dispatch bid idx, Unlock self])
        | Inr (tests, None) \<Rightarrow>
            if rulesAt (heap w) (Rules d) = [] then Inl Panic
            else if \<not> doesEventMatchRule e (rulesAt (heap w) (Rules d) ! 0) (ConnID e)
            then Inr (w, Lock self # tests @ [TestStage1, Unlock self])
            else
              (case createNewBackLog rtd genID now (heap w) d e of
                 Inl IdGenError \<Rightarrow> Inr (w, Lock self # tests @ [TestStage1, Warn, Unlock self])
               | Inl Panic \<Rightarrow> Inl Panic
               | Inr (b, h') \<Rightarrow>
                   Inr (w\<lparr>allBacklogs :=
                            (allBacklogs w)
                              [self := (allBacklogs w ! self)
                                 \<lparr>bl := (bl (allBacklogs w ! self))
                                          (BId b \<mapsto> b\<lparr>bLogs := Some self\<rparr>)\<rparr>],
                          heap := h'\<rparr>,
                        Lock self # tests @
                        [TestStage1, GLock, Insert (BId b), Unlock self,
                         Process (BId b) 0, GUnlock])))"

text \<open>
  The loop \<^verbatim>\<open>for { e := <-ch ... }\<close> on the events received so far. With each event come
  the three things the pass takes from outside: the key order of the map, the result of
  the identifier generator and the clock. A panic ends the goroutine. Each pass starts
  from the world the pass before it left: what other goroutines do between two passes is
  not part of this function.
\<close>

fun manager ::
  "(string \<Rightarrow> 64 word option) \<Rightarrow> matcher \<Rightarrow> nat \<Rightarrow> directive \<Rightarrow> world \<Rightarrow>
   (NormalizedEvent \<times> string list \<times> string option \<times> int) list \<Rightarrow> error + world \<times> action list" where
  "manager rtd doesEventMatchRule self d w [] = Inr (w, [])"
| "manager rtd doesEventMatchRule self d w ((e, ks, genID, now) # ch) =
     (case managerStep rtd doesEventMatchRule self d e ks genID now w of
        Inl err \<Rightarrow> Inl err
      | Inr (w1, tr1) \<Rightarrow>
          (case manager rtd doesEventMatchRule self d w1 ch of
             Inl err \<Rightarrow> Inl err
           | Inr (w2, tr2) \<Rightarrow> Inr (w2, tr1 @ tr2)))"

text \<open>
  The scan as the specification words it: of the keys in scan order keep those whose
  backlog has \<^verbatim>\<open>CurrentStage > 1\<close>; test each against the rule at index
  \<^verbatim>\<open>CurrentStage - 1\<close>; stop at the first that matches.
\<close>

definition eligible :: "(string \<rightharpoonup> backLog) \<Rightarrow> string list \<Rightarrow> string list" where
  "eligible m ks = filter (\<lambda>k. case m k of None \<Rightarrow> False | Some v \<Rightarrow> 1 < CurrentStage v) ks"

fun firstMatch ::
  "matcher \<Rightarrow> heap \<Rightarrow> NormalizedEvent \<Rightarrow> (string \<rightharpoonup> backLog) \<Rightarrow> string list \<Rightarrow>
   action list \<times> (string \<times> nat) option" where
  "firstMatch doesEventMatchRule h e m [] = ([], None)"
| "firstMatch doesEventMatchRule h e m (k # ks) =
     (case m k of
        None \<Rightarrow> firstMatch doesEventMatchRule h e m ks
      | Some v \<Rightarrow>
          if doesEventMatchRule e
               (rulesAt h (Rules (Directive v)) ! nat (CurrentStage v - 1)) (ConnID e)
          then ([Test k (nat (CurrentStage v - 1))], Some (k, nat (CurrentStage v - 1)))
          else
            (case firstMatch doesEventMatchRule h e m ks of
               (tr, r) \<Rightarrow> (Test k (nat (CurrentStage v - 1)) # tr, r)))"

text \<open>
  What the specification's data model says of the backlogs of a group, for the keys the
  scan visits: the key is the backlog's identifier, the backlog belongs to the group's
  directive, and its current stage is a stage of its directive.
\<close>

definition groupOK :: "heap \<Rightarrow> directive \<Rightarrow> (string \<rightharpoonup> backLog) \<Rightarrow> string list \<Rightarrow> bool" where
  "groupOK h d m ks =
     list_all (\<lambda>k. case m k of
                     None \<Rightarrow> False
                   | Some v \<Rightarrow>
                       BId v = k \<and> DId (Directive v) = DId d \<and>
                       CurrentStage v \<le> int (length (rulesAt h (Rules (Directive v))))) ks"


section \<open>Removal and the watchdog\<close>

text \<open>
  \<^verbatim>\<open>removeBackLog\<close>, lines 45 to 52. \<^verbatim>\<open>m.blogs.Lock()\<close> on a pointer that is no group
  panics.
\<close>

definition removeBackLog :: "world \<Rightarrow> removalChannelMsg \<Rightarrow> error + world \<times> action list" where
  "removeBackLog w m =
     (if \<not> blogs m < length (allBacklogs w) then Inl Panic
      else
        Inr (w\<lparr>allBacklogs :=
                 (allBacklogs w)
                   [blogs m := (allBacklogs w ! blogs m)
                      \<lparr>bl := (bl (allBacklogs w ! blogs m))(ID m := None)\<rparr>]\<rparr>,
             [Lock (blogs m), GLock, Delete (ID m), GUnlock, Unlock (blogs m)]))"

text \<open>
  One tick of the watchdog, lines 78 to 96: the loop over \<^verbatim>\<open>allBacklogs\<close> from index
  \<open>i\<close> on, with \<^verbatim>\<open>bLen\<close> as accumulator. Each group is the group as the tick finds it
  under its read lock; \<open>ord i\<close> is the key order of \<^verbatim>\<open>range allBacklogs[i].bl\<close>. The
  result is the value given to \<^verbatim>\<open>backlogCounter.Set\<close> and the trace; \<^verbatim>\<open>checkExpired\<close>
  (another file) is recorded as a call.
\<close>

fun sweepGroups :: "(nat \<Rightarrow> string list) \<Rightarrow> nat \<Rightarrow> backlogs list \<Rightarrow> int \<Rightarrow> int \<times> action list" where
  "sweepGroups ord i [] bLen = (bLen, [])"
| "sweepGroups ord i (g # gs) bLen =
     (let l = int (card (dom (bl g))) in
      if l = 0 then
        (case sweepGroups ord (Suc i) gs bLen of
           (n, tr) \<Rightarrow> (n, [GRLock, RLock i, RUnlock i, GRUnlock] @ tr))
      else
        (case sweepGroups ord (Suc i) gs (bLen + l) of
           (n, tr) \<Rightarrow>
             (n, [GRLock, RLock i] @ map (CheckExpired i) (ord i) @ [RUnlock i, GRUnlock] @ tr)))"

definition watchdogTick :: "(nat \<Rightarrow> string list) \<Rightarrow> backlogs list \<Rightarrow> int \<times> action list" where
  "watchdogTick ord gs = sweepGroups ord 0 gs 0"

section \<open>Concrete runs\<close>

text \<open>
  A directive of two stages whose second rule refers to stage 1 in all four fields, and
  an event; \<open>res1\<close> is the array that resolution leaves.
\<close>

definition tpl1 :: "rule list" where
  "tpl1 =
    [\<lparr>From = ''10.0.0.1'', To = ''ANY'', PortFrom = ''ANY'', PortTo = ''80'',
      Status = '''', StartTime = 0\<rparr>,
     \<lparr>From = '':1'', To = '':1'', PortFrom = '':1'', PortTo = '':1'',
      Status = '''', StartTime = 0\<rparr>]"

definition ev1 :: NormalizedEvent where
  "ev1 = \<lparr>ConnID = 7, SrcIP = ''1.2.3.4'', DstIP = ''5.6.7.8'', SrcPort = 4321, DstPort = 80,
     Timestamp = 1000\<rparr>"

definition res1 :: "rule list" where
  "res1 =
    [\<lparr>From = ''10.0.0.1'', To = ''ANY'', PortFrom = ''ANY'', PortTo = ''80'',
      Status = ''active'', StartTime = 0\<rparr>,
     \<lparr>From = ''10.0.0.1'', To = ''5.6.7.8'', PortFrom = ''4321'', PortTo = ''80'',
      Status = ''inactive'', StartTime = 0\<rparr>]"


text \<open>
  A directive of three stages with a forward reference (stage 2 takes its source from
  stage 3) and a chain of backward references (stage 3 takes its destination from stage
  2, which takes it from stage 1); \<open>res2\<close> is the array that resolution leaves.
\<close>

definition tpl2 :: "rule list" where
  "tpl2 =
    [\<lparr>From = ''10.0.0.1'', To = ''ANY'', PortFrom = ''ANY'', PortTo = ''80'',
      Status = '''', StartTime = 0\<rparr>,
     \<lparr>From = '':3'', To = '':1'', PortFrom = ''ANY'', PortTo = '':1'',
      Status = '''', StartTime = 0\<rparr>,
     \<lparr>From = '':1'', To = '':2'', PortFrom = '':2'', PortTo = ''443'',
      Status = '''', StartTime = 0\<rparr>]"

definition res2 :: "rule list" where
  "res2 =
    [\<lparr>From = ''10.0.0.1'', To = ''ANY'', PortFrom = ''ANY'', PortTo = ''80'',
      Status = ''active'', StartTime = 0\<rparr>,
     \<lparr>From = '':1'', To = ''5.6.7.8'', PortFrom = ''ANY'', PortTo = ''80'',
      Status = ''inactive'', StartTime = 0\<rparr>,
     \<lparr>From = ''10.0.0.1'', To = ''5.6.7.8'', PortFrom = ''4321'', PortTo = ''443'',
      Status = ''inactive'', StartTime = 0\<rparr>]"

text \<open>
  A group with no backlog over the two-stage directive \<open>tpl1\<close>, an event that matches
  its stage-1 rule under a matcher that compares the source address, the backlog and
  the world that creation leaves when the generator returns \<^verbatim>\<open>b1\<close> and the clock reads
  2000, and a group with a backlog at stage 1 and one at stage 2.
\<close>

definition dirT :: directive where
  "dirT = \<lparr>DId = 5, Rules = 0\<rparr>"

definition blogC :: backLog where
  "blogC = \<lparr>BId = ''b1'', Directive = \<lparr>DId = 5, Rules = 1\<rparr>, CurrentStage = 1,
     HighestStage = 2, bLogs = None\<rparr>"


definition matchFrom :: matcher where
  "matchFrom e r c = (From r = SrcIP e)"

definition evM :: NormalizedEvent where
  "evM = \<lparr>ConnID = 8, SrcIP = ''10.0.0.1'', DstIP = ''5.6.7.8'', SrcPort = 4321, DstPort = 80,
     Timestamp = 1000\<rparr>"

definition world0 :: world where
  "world0 = \<lparr>allBacklogs = [\<lparr>gid = 5, bl = Map.empty\<rparr>], heap = [tpl1]\<rparr>"

definition resM :: "rule list" where
  "resM =
    [\<lparr>From = ''10.0.0.1'', To = ''ANY'', PortFrom = ''ANY'', PortTo = ''80'',
      Status = ''active'', StartTime = 2000\<rparr>,
     \<lparr>From = ''10.0.0.1'', To = ''5.6.7.8'', PortFrom = ''4321'', PortTo = ''80'',
      Status = ''inactive'', StartTime = 0\<rparr>]"

definition worldC :: world where
  "worldC =
     \<lparr>allBacklogs = [\<lparr>gid = 5, bl = [''b1'' \<mapsto> blogC\<lparr>bLogs := Some 0\<rparr>]\<rparr>],
      heap = [tpl1, resM]\<rparr>"

definition blogA :: backLog where
  "blogA = \<lparr>BId = ''a'', Directive = \<lparr>DId = 5, Rules = 1\<rparr>, CurrentStage = 1,
     HighestStage = 2, bLogs = Some 0\<rparr>"

definition blogB :: backLog where
  "blogB = \<lparr>BId = ''b'', Directive = \<lparr>DId = 5, Rules = 2\<rparr>, CurrentStage = 2,
     HighestStage = 2, bLogs = Some 0\<rparr>"

definition worldA :: world where
  "worldA =
     \<lparr>allBacklogs = [\<lparr>gid = 5, bl = [''a'' \<mapsto> blogA, ''b'' \<mapsto> blogB]\<rparr>],
      heap = [tpl1, resM, resM]\<rparr>"

text \<open>
  A removal message for backlog \<^verbatim>\<open>b1\<close> of group 0, the world it leaves of \<open>worldC\<close>,
  and a key order for a tick over two groups.
\<close>

definition msg1 :: removalChannelMsg where
  "msg1 = \<lparr>blogs = 0, ID = ''b1''\<rparr>"

definition worldR :: world where
  "worldR = \<lparr>allBacklogs = [\<lparr>gid = 5, bl = Map.empty\<rparr>], heap = [tpl1, resM]\<rparr>"

definition ordW :: "nat \<Rightarrow> string list" where
  "ordW i = (if i = 0 then [''b'', ''a''] else [])"

section \<open>Properties of reference resolution\<close>

text \<open>Each block in closed form, for an index inside the array.\<close>

lemma resolveFrom_eq:
  assumes "i < length rs"
  shows "resolveFrom rtd e i rs =
     (if refOK rtd (length rs) (From (rs ! i))
      then Inr (rs[i := (rs ! i)\<lparr>From := resolved rtd From isIPClass (SrcIP e) rs (From (rs ! i))\<rparr>])
      else Inl Panic)"
  using assms
  by (auto simp: resolveFrom_def refOK_def resolved_def index_def stageIdx_def isIPClass_def Let_def
      split: option.splits)

lemma resolveTo_eq:
  assumes "i < length rs"
  shows "resolveTo rtd e i rs =
     (if refOK rtd (length rs) (To (rs ! i))
      then Inr (rs[i := (rs ! i)\<lparr>To := resolved rtd To isIPClass (DstIP e) rs (To (rs ! i))\<rparr>])
      else Inl Panic)"
  using assms
  by (auto simp: resolveTo_def refOK_def resolved_def index_def stageIdx_def isIPClass_def Let_def
      split: option.splits)

lemma resolvePortFrom_eq:
  assumes "i < length rs"
  shows "resolvePortFrom rtd e i rs =
     (if refOK rtd (length rs) (PortFrom (rs ! i))
      then Inr (rs[i := (rs ! i)\<lparr>PortFrom := resolved rtd PortFrom isAny (Itoa (SrcPort e)) rs (PortFrom (rs ! i))\<rparr>])
      else Inl Panic)"
  using assms
  by (auto simp: resolvePortFrom_def refOK_def resolved_def index_def stageIdx_def isAny_def Let_def
      split: option.splits)

lemma resolvePortTo_eq:
  assumes "i < length rs"
  shows "resolvePortTo rtd e i rs =
     (if refOK rtd (length rs) (PortTo (rs ! i))
      then Inr (rs[i := (rs ! i)\<lparr>PortTo := resolved rtd PortTo isAny (Itoa (DstPort e)) rs (PortTo (rs ! i))\<rparr>])
      else Inl Panic)"
  using assms
  by (auto simp: resolvePortTo_def refOK_def resolved_def index_def stageIdx_def isAny_def Let_def
      split: option.splits)

text \<open>A field read through an update of rule i that leaves the field alone.\<close>

lemma resolved_cong:
  assumes "\<And>k. get (cur' ! k) = get (cur ! k)"
  shows "resolved rtd get wild sub cur' r = resolved rtd get wild sub cur r"
  using assms by (simp add: resolved_def split: option.splits)

lemma get_update_other:
  assumes "i < length rs" "get x = get (rs ! i)"
  shows "get (rs[i := x] ! k) = get (rs ! k)"
  using assms by (cases "k = i") auto

lemma resolved_update:
  assumes "i < length rs" "get x = get (rs ! i)"
  shows "resolved rtd get wild sub (rs[i := x]) r = resolved rtd get wild sub rs r"
  by (rule resolved_cong) (use assms in \<open>simp add: get_update_other\<close>)

lemma initRule_eq:
  assumes "i < length rs" "0 < i"
  shows "initRule rtd e i rs =
     (if rulesOK rtd (length rs) (rs ! i) then Inr (rs[i := newRule rtd e rs (rs ! i)])
      else Inl Panic)"
  using assms
  by (simp add: initRule_def resolveFrom_eq resolveTo_eq resolvePortFrom_eq resolvePortTo_eq
      resolved_update rulesOK_def newRule_def)

lemma initRule_0: "initRule rtd e 0 rs = Inr (rs[0 := (rs ! 0)\<lparr>Status := ''active''\<rparr>])"
  by (simp add: initRule_def)

lemma frame_refl: "frame i rs rs"
  by (simp add: frame_def)

lemma frame_update: "frame i rs (rs[i := x])"
  by (simp add: frame_def)

lemma frame_trans: "frame i rs rs1 \<Longrightarrow> frame i rs1 rs2 \<Longrightarrow> frame i rs rs2"
  by (simp add: frame_def)

lemma resolveFrom_frame: "resolveFrom rtd e i rs = Inr rs' \<Longrightarrow> frame i rs rs'"
  by (auto simp: resolveFrom_def Let_def frame_refl frame_update
      split: option.splits sum.splits if_splits)

lemma resolveTo_frame: "resolveTo rtd e i rs = Inr rs' \<Longrightarrow> frame i rs rs'"
  by (auto simp: resolveTo_def Let_def frame_refl frame_update
      split: option.splits sum.splits if_splits)

lemma resolvePortFrom_frame: "resolvePortFrom rtd e i rs = Inr rs' \<Longrightarrow> frame i rs rs'"
  by (auto simp: resolvePortFrom_def Let_def frame_refl frame_update
      split: option.splits sum.splits if_splits)

lemma resolvePortTo_frame: "resolvePortTo rtd e i rs = Inr rs' \<Longrightarrow> frame i rs rs'"
  by (auto simp: resolvePortTo_def Let_def frame_refl frame_update
      split: option.splits sum.splits if_splits)

lemma initRule_frame:
  assumes "initRule rtd e i rs = Inr rs'"
  shows "frame i rs rs'"
proof (cases "i = 0")
  case True
  with assms show ?thesis by (auto simp: initRule_def frame_update)
next
  case False
  let ?rs0 = "rs[i := (rs ! i)\<lparr>Status := ''inactive''\<rparr>]"
  from assms False obtain rs1 rs2 rs3 where
    s: "resolveFrom rtd e i ?rs0 = Inr rs1" "resolveTo rtd e i rs1 = Inr rs2"
       "resolvePortFrom rtd e i rs2 = Inr rs3" "resolvePortTo rtd e i rs3 = Inr rs'"
    by (auto simp: initRule_def split: sum.splits)
  have "frame i rs ?rs0" by (rule frame_update)
  then show ?thesis
    using resolveFrom_frame [OF s(1)] resolveTo_frame [OF s(2)]
      resolvePortFrom_frame [OF s(3)] resolvePortTo_frame [OF s(4)]
    by (blast intro: frame_trans)
qed

lemma initLoop_frame:
  assumes "initLoop rtd e is rs = Inr rs'"
  shows "length rs' = length rs \<and> (\<forall>j. j \<notin> set is \<longrightarrow> rs' ! j = rs ! j)"
  using assms
proof (induction "is" arbitrary: rs)
  case Nil
  then show ?case by simp
next
  case (Cons i "is")
  then obtain rs1 where a: "initRule rtd e i rs = Inr rs1" and b: "initLoop rtd e is rs1 = Inr rs'"
    by (auto split: sum.splits)
  from Cons.IH [OF b] initRule_frame [OF a] show ?case by (auto simp: frame_def)
qed

lemma initLoop_append:
  "initLoop rtd e (xs @ ys) rs =
     (case initLoop rtd e xs rs of Inl err \<Rightarrow> Inl err | Inr rs' \<Rightarrow> initLoop rtd e ys rs')"
  by (induction xs arbitrary: rs) (auto split: sum.splits)


lemma initLoop_snoc:
  "initLoop rtd e (xs @ [i]) rs =
     (case initLoop rtd e xs rs of Inl err \<Rightarrow> Inl err | Inr rs' \<Rightarrow> initRule rtd e i rs')"
  by (induction xs arbitrary: rs) (auto split: sum.splits)

lemma seen_nth:
  assumes "length rs' = length rs" "k < length rs"
  shows "seen rs rs' i ! k = (if k < i then rs' ! k else rs ! k)"
  using assms by (auto simp: seen_def nth_append min_def)

lemma initLoop_prefix:
  assumes run: "initLoop rtd e [0..<length rs] rs = Inr rs'" and m: "m \<le> length rs"
  shows "initLoop rtd e [0..<m] rs = Inr (seen rs rs' m)"
proof -
  from m have "[0..<length rs] = [0..<m] @ [m..<length rs]"
    by (metis le_add_diff_inverse upt_add_eq_append zero_le)
  with run obtain cur where
    a: "initLoop rtd e [0..<m] rs = Inr cur" and b: "initLoop rtd e [m..<length rs] cur = Inr rs'"
    by (auto simp: initLoop_append split: sum.splits)
  from initLoop_frame [OF a] have la: "length cur = length rs"
    and fa: "\<And>j. m \<le> j \<Longrightarrow> cur ! j = rs ! j" by auto
  from initLoop_frame [OF b] have lb: "length rs' = length cur"
    and fb: "\<And>j. j < m \<Longrightarrow> rs' ! j = cur ! j" by auto
  have "cur = seen rs rs' m"
  proof (rule nth_equalityI)
    show "length cur = length (seen rs rs' m)"
      using la lb m by (simp add: seen_def)
  next
    fix k assume "k < length cur"
    then show "cur ! k = seen rs rs' m ! k"
      using la lb fa [of k] fb [of k] by (simp add: seen_nth)
  qed
  with a show ?thesis by simp
qed

lemma initLoop_step:
  assumes run: "initLoop rtd e [0..<length rs] rs = Inr rs'" and i: "i < length rs"
  shows "initRule rtd e i (seen rs rs' i) = Inr (seen rs rs' (Suc i))"
proof -
  have "initLoop rtd e [0..<Suc i] rs = Inr (seen rs rs' (Suc i))"
    using initLoop_prefix [OF run, of "Suc i"] i by simp
  moreover have "initLoop rtd e [0..<i] rs = Inr (seen rs rs' i)"
    using initLoop_prefix [OF run, of i] i by simp
  ultimately show ?thesis
    by (simp add: initLoop_snoc)
qed

lemma initBackLogRules_length:
  assumes "initBackLogRules rtd e rs = Inr rs'"
  shows "length rs' = length rs"
  using initLoop_frame [of rtd e "[0..<length rs]" rs rs'] assms
  by (simp add: initBackLogRules_def)

lemma initBackLogRules_first:
  assumes run: "initBackLogRules rtd e rs = Inr rs'" and ne: "rs \<noteq> []"
  shows "rs' ! 0 = (rs ! 0)\<lparr>Status := ''active''\<rparr>"
proof -
  from run have r: "initLoop rtd e [0..<length rs] rs = Inr rs'"
    by (simp add: initBackLogRules_def)
  have l: "length rs' = length rs" by (rule initBackLogRules_length [OF run])
  from ne have i: "0 < length rs" by simp
  have "initRule rtd e 0 (seen rs rs' 0) = Inr (seen rs rs' (Suc 0))"
    by (rule initLoop_step [OF r i])
  then have "seen rs rs' (Suc 0) = (seen rs rs' 0)[0 := (seen rs rs' 0 ! 0)\<lparr>Status := ''active''\<rparr>]"
    by (simp add: initRule_0)
  then have "seen rs rs' (Suc 0) ! 0 = ((seen rs rs' 0)[0 := (seen rs rs' 0 ! 0)\<lparr>Status := ''active''\<rparr>]) ! 0"
    by simp
  then show ?thesis
    using l i by (simp add: seen_nth) (simp add: seen_def)
qed

lemma initBackLogRules_later:
  assumes run: "initBackLogRules rtd e rs = Inr rs'" and i: "0 < i" "i < length rs"
  shows "rulesOK rtd (length rs) (rs ! i) \<and> rs' ! i = newRule rtd e (seen rs rs' i) (rs ! i)"
proof -
  from run have r: "initLoop rtd e [0..<length rs] rs = Inr rs'"
    by (simp add: initBackLogRules_def)
  have l: "length rs' = length rs" by (rule initBackLogRules_length [OF run])
  have ls: "length (seen rs rs' i) = length rs"
    using l i by (simp add: seen_def)
  have si: "seen rs rs' i ! i = rs ! i"
    using l i by (simp add: seen_nth)
  have st: "initRule rtd e i (seen rs rs' i) = Inr (seen rs rs' (Suc i))"
    by (rule initLoop_step [OF r i(2)])
  have ok: "rulesOK rtd (length rs) (rs ! i)"
    using st i ls si by (simp add: initRule_eq split: if_splits)
  with st have "seen rs rs' (Suc i) = (seen rs rs' i)[i := newRule rtd e (seen rs rs' i) (rs ! i)]"
    using i ls si by (simp add: initRule_eq)
  then have "seen rs rs' (Suc i) ! i = ((seen rs rs' i)[i := newRule rtd e (seen rs rs' i) (rs ! i)]) ! i"
    by simp
  then have "rs' ! i = newRule rtd e (seen rs rs' i) (rs ! i)"
    using l i ls by (simp add: seen_nth)
  with ok show ?thesis by simp
qed

lemma initLoop_total:
  assumes ok: "refsInRange rtd rs" and m: "m \<le> length rs"
  shows "\<exists>cur. initLoop rtd e [0..<m] rs = Inr cur"
  using m
proof (induction m)
  case 0
  then show ?case by simp
next
  case (Suc m)
  then obtain cur where c: "initLoop rtd e [0..<m] rs = Inr cur" by auto
  from initLoop_frame [OF c] Suc.prems have l: "length cur = length rs" and f: "cur ! m = rs ! m"
    by auto
  have "\<exists>cur'. initRule rtd e m cur = Inr cur'"
  proof (cases "m = 0")
    case True
    then show ?thesis by (simp add: initRule_0)
  next
    case False
    with ok Suc.prems have "rulesOK rtd (length rs) (rs ! m)"
      by (simp add: refsInRange_def)
    with False Suc.prems l f show ?thesis by (simp add: initRule_eq)
  qed
  with c show ?case by (simp add: initLoop_snoc)
qed

lemma initBackLogRules_succeeds_iff:
  "(\<exists>rs'. initBackLogRules rtd e rs = Inr rs') \<longleftrightarrow> refsInRange rtd rs"
proof
  assume "\<exists>rs'. initBackLogRules rtd e rs = Inr rs'"
  then obtain rs' where "initBackLogRules rtd e rs = Inr rs'" ..
  then show "refsInRange rtd rs"
    using initBackLogRules_later [of rtd e rs rs'] by (simp add: refsInRange_def)
next
  assume "refsInRange rtd rs"
  then show "\<exists>rs'. initBackLogRules rtd e rs = Inr rs'"
    using initLoop_total [of rtd rs "length rs" e] by (simp add: initBackLogRules_def)
qed


text \<open>
  Claim C2. When \<^verbatim>\<open>initBackLogRules\<close> returns, the array has the length it had; the
  four endpoint fields of the rule at index 0 (stage 1) are as they were; and for every
  index \<open>i > 0\<close>, each of \<^verbatim>\<open>From\<close>, \<^verbatim>\<open>To\<close>, \<^verbatim>\<open>PortFrom\<close>, \<^verbatim>\<open>PortTo\<close> that does not
  parse as a reference is as it was, and one that parses as a reference to stage \<open>K\<close>
  is rewritten from the same field of the rule of stage \<open>K\<close> in the backlog's copy as
  the pass for \<open>i\<close> found it: an address other than \<^verbatim>\<open>ANY\<close>, \<^verbatim>\<open>HOME_NET\<close>, \<^verbatim>\<open>!HOME_NET\<close>
  is copied, otherwise the event's source address (for \<^verbatim>\<open>From\<close>) or destination
  address (for \<^verbatim>\<open>To\<close>) is written; a port other than \<^verbatim>\<open>ANY\<close> is copied, otherwise the
  event's source port (for \<^verbatim>\<open>PortFrom\<close>) or destination port (for \<^verbatim>\<open>PortTo\<close>) is
  written in decimal.
\<close>

theorem initBackLogRules_rewrites_references:
  assumes "initBackLogRules rtd e rs = Inr rs'"
  shows "length rs' = length rs \<and>
    (rs \<noteq> [] \<longrightarrow>
       From (rs' ! 0) = From (rs ! 0) \<and> To (rs' ! 0) = To (rs ! 0) \<and>
       PortFrom (rs' ! 0) = PortFrom (rs ! 0) \<and> PortTo (rs' ! 0) = PortTo (rs ! 0)) \<and>
    (\<forall>i. 0 < i \<and> i < length rs \<longrightarrow>
       From (rs' ! i) =
         (case rtd (From (rs ! i)) of
            None \<Rightarrow> From (rs ! i)
          | Some K \<Rightarrow>
              let ref = From (seen rs rs' i ! stageIdx K) in
              if ref \<noteq> ''ANY'' \<and> ref \<noteq> ''HOME_NET'' \<and> ref \<noteq> ''!HOME_NET'' then ref
              else SrcIP e) \<and>
       To (rs' ! i) =
         (case rtd (To (rs ! i)) of
            None \<Rightarrow> To (rs ! i)
          | Some K \<Rightarrow>
              let ref = To (seen rs rs' i ! stageIdx K) in
              if ref \<noteq> ''ANY'' \<and> ref \<noteq> ''HOME_NET'' \<and> ref \<noteq> ''!HOME_NET'' then ref
              else DstIP e) \<and>
       PortFrom (rs' ! i) =
         (case rtd (PortFrom (rs ! i)) of
            None \<Rightarrow> PortFrom (rs ! i)
          | Some K \<Rightarrow>
              let ref = PortFrom (seen rs rs' i ! stageIdx K) in
              if ref \<noteq> ''ANY'' then ref else Itoa (SrcPort e)) \<and>
       PortTo (rs' ! i) =
         (case rtd (PortTo (rs ! i)) of
            None \<Rightarrow> PortTo (rs ! i)
          | Some K \<Rightarrow>
              let ref = PortTo (seen rs rs' i ! stageIdx K) in
              if ref \<noteq> ''ANY'' then ref else Itoa (DstPort e)))"
proof (intro conjI allI impI)
  show "length rs' = length rs" by (rule initBackLogRules_length [OF assms])
next
  assume "rs \<noteq> []"
  from initBackLogRules_first [OF assms this]
  show "From (rs' ! 0) = From (rs ! 0)" "To (rs' ! 0) = To (rs ! 0)"
    "PortFrom (rs' ! 0) = PortFrom (rs ! 0)" "PortTo (rs' ! 0) = PortTo (rs ! 0)"
    by simp_all
next
  fix i assume i: "0 < i \<and> i < length rs"
  then have n: "rs' ! i = newRule rtd e (seen rs rs' i) (rs ! i)"
    using initBackLogRules_later [OF assms, of i] by simp
  show "From (rs' ! i) =
         (case rtd (From (rs ! i)) of
            None \<Rightarrow> From (rs ! i)
          | Some K \<Rightarrow>
              let ref = From (seen rs rs' i ! stageIdx K) in
              if ref \<noteq> ''ANY'' \<and> ref \<noteq> ''HOME_NET'' \<and> ref \<noteq> ''!HOME_NET'' then ref
              else SrcIP e)"
    by (simp add: n newRule_def resolved_def isIPClass_def Let_def split: option.splits)
  show "To (rs' ! i) =
         (case rtd (To (rs ! i)) of
            None \<Rightarrow> To (rs ! i)
          | Some K \<Rightarrow>
              let ref = To (seen rs rs' i ! stageIdx K) in
              if ref \<noteq> ''ANY'' \<and> ref \<noteq> ''HOME_NET'' \<and> ref \<noteq> ''!HOME_NET'' then ref
              else DstIP e)"
    by (simp add: n newRule_def resolved_def isIPClass_def Let_def split: option.splits)
  show "PortFrom (rs' ! i) =
         (case rtd (PortFrom (rs ! i)) of
            None \<Rightarrow> PortFrom (rs ! i)
          | Some K \<Rightarrow>
              let ref = PortFrom (seen rs rs' i ! stageIdx K) in
              if ref \<noteq> ''ANY'' then ref else Itoa (SrcPort e))"
    by (simp add: n newRule_def resolved_def isAny_def Let_def split: option.splits)
  show "PortTo (rs' ! i) =
         (case rtd (PortTo (rs ! i)) of
            None \<Rightarrow> PortTo (rs ! i)
          | Some K \<Rightarrow>
              let ref = PortTo (seen rs rs' i ! stageIdx K) in
              if ref \<noteq> ''ANY'' then ref else Itoa (DstPort e))"
    by (simp add: n newRule_def resolved_def isAny_def Let_def split: option.splits)
qed

theorem initBackLogRules_rewrites_references_witness:
  "initBackLogRules RefToDigit ev1 tpl1 = Inr res1 \<and>
   length res1 = length tpl1 \<and>
   RefToDigit (From (tpl1 ! 1)) = Some 1 \<and> From (res1 ! 1) = From (tpl1 ! 0) \<and>
   RefToDigit (To (tpl1 ! 1)) = Some 1 \<and> To (tpl1 ! 0) = ''ANY'' \<and> To (res1 ! 1) = DstIP ev1 \<and>
   PortFrom (res1 ! 1) = Itoa (SrcPort ev1) \<and> PortTo (res1 ! 1) = ''80'' \<and>
   From (res1 ! 0) = From (tpl1 ! 0)"
proof -
  have run: "initBackLogRules RefToDigit ev1 tpl1 = Inr res1"
    by (simp add: initBackLogRules_def initRule_def resolveFrom_def resolveTo_def
      resolvePortFrom_def resolvePortTo_def index_def tpl1_def ev1_def res1_def
      RefToDigit_def isDigit_def decimal_def digitVal_def Itoa_def natStr.simps digitChar_def
      upt_rec Let_def)
  have ne: "tpl1 \<noteq> []" and l: "0 < (1::nat) \<and> 1 < length tpl1"
    by (simp_all add: tpl1_def)
  have s: "seen tpl1 res1 1 ! 0 = res1 ! 0"
    by (simp add: seen_def res1_def)
  from initBackLogRules_rewrites_references [OF run] ne l
  have "From (res1 ! 1) =
         (case RefToDigit (From (tpl1 ! 1)) of
            None \<Rightarrow> From (tpl1 ! 1)
          | Some K \<Rightarrow>
              let ref = From (seen tpl1 res1 1 ! stageIdx K) in
              if ref \<noteq> ''ANY'' \<and> ref \<noteq> ''HOME_NET'' \<and> ref \<noteq> ''!HOME_NET'' then ref
              else SrcIP ev1)"
    and "length res1 = length tpl1" and "From (res1 ! 0) = From (tpl1 ! 0)"
    by blast+
  then show ?thesis
    using run
    by (simp add: tpl1_def res1_def ev1_def RefToDigit_def isDigit_def decimal_def digitVal_def
        Itoa_def natStr.simps digitChar_def)
qed



lemmas run_simps =
  initBackLogRules_def initRule_def resolveFrom_def resolveTo_def resolvePortFrom_def
  resolvePortTo_def index_def RefToDigit_def isDigit_def decimal_def digitVal_def Itoa_def
  natStr.simps digitChar_def upt_rec Let_def

lemma run2: "initBackLogRules RefToDigit ev1 tpl2 = Inr res2"
  by (simp add: run_simps tpl2_def res2_def ev1_def)

lemma resolved_seen:
  assumes l: "length rs' = length rs" and k: "stageIdx K < length rs" and r: "rtd r = Some K"
  shows "resolved rtd get wild sub (seen rs rs' i) r =
     (if stageIdx K < i
      then (if wild (get (rs' ! stageIdx K)) then sub else get (rs' ! stageIdx K))
      else (if wild (get (rs ! stageIdx K)) then sub else get (rs ! stageIdx K)))"
  using assms by (simp add: resolved_def seen_nth Let_def)






lemmas parse_simps = RefToDigit_def isDigit_def decimal_def digitVal_def


lemma sint_pred:
  assumes a: "1 \<le> sint (v :: 64 word)"
  shows "sint (v - 1) = sint v - 1"
proof -
  have b: "sint v < 2 ^ 63" using sint_lt [of v] by simp
  have "sint (v - 1) = signed_take_bit 63 (sint v - sint (1 :: 64 word))"
    by (simp add: sint_word_ariths)
  also have "\<dots> = signed_take_bit 63 (sint v - 1)" by simp
  also have "\<dots> = sint v - 1"
    by (rule signed_take_bit_int_eq_self) (use a b in auto)
  finally show ?thesis .
qed

lemma backRef_stageIdx:
  assumes "backRef rtd i r" "rtd r = Some K"
  shows "stageIdx K < i \<and> 0 \<le> sint (K - 1) \<and> sint (K - 1) < int i"
  using assms by (auto simp: backRef_def stageIdx_def sint_pred)

lemma backRef_refOK:
  assumes "backRef rtd i r" "i < n"
  shows "refOK rtd n r"
  using assms backRef_stageIdx [of rtd i r]
  by (auto simp: refOK_def split: option.splits)

lemma backwardOnly_refsInRange:
  assumes "backwardOnly rtd rs"
  shows "refsInRange rtd rs"
  using assms by (auto simp: backwardOnly_def refsInRange_def rulesOK_def intro: backRef_refOK)

lemma resolved_concrete:
  assumes br: "backRef rtd i r" and l: "length rs' = length rs" and i: "i < length rs"
    and prev: "\<forall>j<i. rtd (get (rs' ! j)) = None" and sub: "rtd sub = None"
  shows "rtd (resolved rtd get wild sub (seen rs rs' i) r) = None"
proof (cases "rtd r")
  case None
  then show ?thesis by (simp add: resolved_def)
next
  case (Some K)
  with br have k: "stageIdx K < i" using backRef_stageIdx by blast
  with i have "stageIdx K < length rs" by simp
  with Some l k prev sub show ?thesis
    by (simp add: resolved_seen)
qed

lemma resolved_None: "rtd r = None \<Longrightarrow> resolved rtd get wild sub cur r = r"
  by (simp add: resolved_def)

lemma newRule_concrete:
  assumes "concrete rtd r" "Status r = ''inactive''"
  shows "newRule rtd e cur r = r"
  using assms by (simp add: newRule_def concrete_def resolved_None)

lemma backward_all_concrete:
  assumes run: "initBackLogRules rtd e rs = Inr rs'" and bw: "backwardOnly rtd rs"
    and pe: "plainEvent rtd e"
  shows "i < length rs \<Longrightarrow> concrete rtd (rs' ! i)"
proof (induction i rule: less_induct)
  case (less i)
  have l: "length rs' = length rs" by (rule initBackLogRules_length [OF run])
  show ?case
  proof (cases "i = 0")
    case True
    with less.prems have ne: "rs \<noteq> []" by auto
    with bw have "concrete rtd (rs ! 0)" by (simp add: backwardOnly_def)
    with initBackLogRules_first [OF run ne] True show ?thesis
      by (simp add: concrete_def)
  next
    case False
    then have pos: "0 < i" by simp
    from initBackLogRules_later [OF run pos less.prems]
    have n: "rs' ! i = newRule rtd e (seen rs rs' i) (rs ! i)" by simp
    from bw pos less.prems have br:
      "backRef rtd i (From (rs ! i))" "backRef rtd i (To (rs ! i))"
      "backRef rtd i (PortFrom (rs ! i))" "backRef rtd i (PortTo (rs ! i))"
      by (simp_all add: backwardOnly_def)
    have prev: "\<forall>j<i. concrete rtd (rs' ! j)"
      using less.IH less.prems by simp
    from pe have sub: "rtd (SrcIP e) = None" "rtd (DstIP e) = None"
      "rtd (Itoa (SrcPort e)) = None" "rtd (Itoa (DstPort e)) = None"
      by (simp_all add: plainEvent_def)
    have "rtd (resolved rtd From isIPClass (SrcIP e) (seen rs rs' i) (From (rs ! i))) = None"
      by (rule resolved_concrete [OF br(1) l less.prems _ sub(1)])
        (use prev in \<open>simp add: concrete_def\<close>)
    moreover have "rtd (resolved rtd To isIPClass (DstIP e) (seen rs rs' i) (To (rs ! i))) = None"
      by (rule resolved_concrete [OF br(2) l less.prems _ sub(2)])
        (use prev in \<open>simp add: concrete_def\<close>)
    moreover have "rtd (resolved rtd PortFrom isAny (Itoa (SrcPort e)) (seen rs rs' i)
        (PortFrom (rs ! i))) = None"
      by (rule resolved_concrete [OF br(3) l less.prems _ sub(3)])
        (use prev in \<open>simp add: concrete_def\<close>)
    moreover have "rtd (resolved rtd PortTo isAny (Itoa (DstPort e)) (seen rs rs' i)
        (PortTo (rs ! i))) = None"
      by (rule resolved_concrete [OF br(4) l less.prems _ sub(4)])
        (use prev in \<open>simp add: concrete_def\<close>)
    ultimately show ?thesis
      by (simp add: n newRule_def concrete_def)
  qed
qed

lemma concrete_fixed:
  assumes run: "initBackLogRules rtd e rs = Inr rs'"
    and c: "\<forall>i<length rs'. concrete rtd (rs' ! i)"
  shows "initBackLogRules rtd e rs' = Inr rs'"
proof -
  have l: "length rs' = length rs" by (rule initBackLogRules_length [OF run])
  have st0: "rs \<noteq> [] \<Longrightarrow> Status (rs' ! 0) = ''active''"
    using initBackLogRules_first [OF run] by simp
  have st: "Status (rs' ! i) = ''inactive''" if "0 < i" "i < length rs" for i
    using initBackLogRules_later [OF run that] by (simp add: newRule_def)
  have "refsInRange rtd rs'"
    using c by (simp add: refsInRange_def rulesOK_def refOK_def concrete_def)
  then obtain rs2 where run2: "initBackLogRules rtd e rs' = Inr rs2"
    using initBackLogRules_succeeds_iff [of rtd e rs'] by blast
  have l2: "length rs2 = length rs'" by (rule initBackLogRules_length [OF run2])
  have "rs2 = rs'"
  proof (rule nth_equalityI)
    show "length rs2 = length rs'" by (rule l2)
  next
    fix i assume "i < length rs2"
    then have i: "i < length rs'" using l2 by simp
    show "rs2 ! i = rs' ! i"
    proof (cases "i = 0")
      case True
      with i have ne: "rs' \<noteq> []" by auto
      then have "rs \<noteq> []" using l by auto
      with initBackLogRules_first [OF run2 ne] st0 True show ?thesis by simp
    next
      case False
      then have pos: "0 < i" by simp
      from initBackLogRules_later [OF run2 pos i]
      have "rs2 ! i = newRule rtd e (seen rs' rs2 i) (rs' ! i)" by simp
      also have "\<dots> = rs' ! i"
        by (rule newRule_concrete) (use c i pos st l in auto)
      finally show ?thesis .
    qed
  qed
  with run2 show ?thesis by simp
qed

text \<open>
  Claim C3, as amended. For a template whose references all point backwards (no field of
  stage 1 is a reference, and a reference in the rule of stage \<open>i + 1\<close> names one of the
  stages 1 to \<open>i\<close>), and an event whose addresses and printed ports are no references:
  resolution returns, no field of any rule of the result parses as a reference, and
  resolving the result a second time returns it unchanged.
\<close>

theorem initBackLogRules_backward_total_idempotent:
  assumes "backwardOnly rtd rs" "plainEvent rtd e"
  shows "\<exists>rs'. initBackLogRules rtd e rs = Inr rs' \<and>
           (\<forall>i<length rs'. concrete rtd (rs' ! i)) \<and>
           initBackLogRules rtd e rs' = Inr rs'"
proof -
  from assms(1) have "refsInRange rtd rs" by (rule backwardOnly_refsInRange)
  then obtain rs' where run: "initBackLogRules rtd e rs = Inr rs'"
    using initBackLogRules_succeeds_iff [of rtd e rs] by blast
  have l: "length rs' = length rs" by (rule initBackLogRules_length [OF run])
  have c: "\<forall>i<length rs'. concrete rtd (rs' ! i)"
    using backward_all_concrete [OF run assms] l by simp
  from concrete_fixed [OF run c] run c show ?thesis by blast
qed

text \<open>
  Claim C3 as stated fails for a template with a forward reference: stage 2 of \<open>tpl2\<close>
  takes \<^verbatim>\<open>:1\<close> from stage 3 as its source, which still parses as a reference, and a
  second resolution changes it.
\<close>

theorem initBackLogRules_total_idempotent_counterexample:
  "initBackLogRules RefToDigit ev1 tpl2 = Inr res2 \<and>
   RefToDigit (From (res2 ! 1)) = Some 1 \<and>
   initBackLogRules RefToDigit ev1 res2 \<noteq> Inr res2"
  by (simp add: run_simps tpl2_def res2_def ev1_def)


theorem initBackLogRules_backward_total_idempotent_witness:
  "backwardOnly RefToDigit tpl1 \<and> plainEvent RefToDigit ev1 \<and>
   initBackLogRules RefToDigit ev1 tpl1 = Inr res1 \<and>
   concrete RefToDigit (res1 ! 0) \<and> concrete RefToDigit (res1 ! 1) \<and>
   initBackLogRules RefToDigit ev1 res1 = Inr res1"
proof -
  have bw: "backwardOnly RefToDigit tpl1"
    by (auto simp: backwardOnly_def tpl1_def backRef_def concrete_def parse_simps less_Suc_eq)
  have pe: "plainEvent RefToDigit ev1"
    by (simp add: plainEvent_def ev1_def parse_simps Itoa_def natStr.simps digitChar_def)
  have run: "initBackLogRules RefToDigit ev1 tpl1 = Inr res1"
    by (simp add: run_simps tpl1_def res1_def ev1_def)
  from initBackLogRules_backward_total_idempotent [OF bw pe] run
  have c: "\<forall>i<length res1. concrete RefToDigit (res1 ! i)"
    and f: "initBackLogRules RefToDigit ev1 res1 = Inr res1"
    by auto
  have "(0::nat) < length res1" "(1::nat) < length res1"
    by (simp_all add: res1_def)
  with c have "concrete RefToDigit (res1 ! 0)" "concrete RefToDigit (res1 ! 1)"
    by blast+
  with bw pe run f show ?thesis by blast
qed

section \<open>Properties of backlog creation\<close>

lemma rulesAt_append_new [simp]: "rulesAt (h @ [x]) (length h) = x"
  by (simp add: rulesAt_def)

lemma rulesAt_append_old: "a < length h \<Longrightarrow> rulesAt (h @ [x]) a = rulesAt h a"
  by (simp add: rulesAt_def nth_append)

lemma rulesAt_nonempty: "rulesAt h a \<noteq> [] \<Longrightarrow> a < length h"
  by (simp add: rulesAt_def split: if_splits)

lemma update_last: "(h @ [x])[length h := y] = h @ [y]"
  by simp

lemma index_never_idgen: "index rs v \<noteq> Inl IdGenError"
  by (simp add: index_def)

lemma resolveFrom_never_idgen: "resolveFrom rtd e i rs \<noteq> Inl IdGenError"
  using index_never_idgen
  by (auto simp: resolveFrom_def Let_def split: sum.splits option.splits)

lemma resolveTo_never_idgen: "resolveTo rtd e i rs \<noteq> Inl IdGenError"
  using index_never_idgen
  by (auto simp: resolveTo_def Let_def split: sum.splits option.splits)

lemma resolvePortFrom_never_idgen: "resolvePortFrom rtd e i rs \<noteq> Inl IdGenError"
  using index_never_idgen
  by (auto simp: resolvePortFrom_def Let_def split: sum.splits option.splits)

lemma resolvePortTo_never_idgen: "resolvePortTo rtd e i rs \<noteq> Inl IdGenError"
  using index_never_idgen
  by (auto simp: resolvePortTo_def Let_def split: sum.splits option.splits)

lemma initRule_never_idgen: "initRule rtd e i rs \<noteq> Inl IdGenError"
  using resolveFrom_never_idgen resolveTo_never_idgen resolvePortFrom_never_idgen
    resolvePortTo_never_idgen
  by (auto simp: initRule_def split: sum.splits)

lemma initLoop_never_idgen: "initLoop rtd e is rs \<noteq> Inl IdGenError"
  by (induction "is" arbitrary: rs) (auto simp: initRule_never_idgen split: sum.splits)

lemma createNewBackLog_Some:
  "createNewBackLog rtd (Some bid) now h d e =
     (case initBackLogRules rtd e (rulesAt h (Rules d)) of
        Inl err \<Rightarrow> Inl err
      | Inr rs \<Rightarrow>
          if rs = [] then Inl Panic
          else Inr (\<lparr>BId = bid, Directive = d\<lparr>Rules := length h\<rparr>, CurrentStage = 1,
                     HighestStage = int (length (rulesAt h (Rules d))), bLogs = None\<rparr>,
                    h @ [rs[0 := (rs ! 0)\<lparr>StartTime := now\<rparr>]]))"
proof (cases "initBackLogRules rtd e (rulesAt h (Rules d))")
  case (Inl err)
  then show ?thesis by (simp add: createNewBackLog_def copyDirective_def)
next
  case (Inr rs)
  show ?thesis
  proof (cases "rs = []")
    case True
    with Inr show ?thesis by (simp add: createNewBackLog_def copyDirective_def)
  next
    case False
    from initBackLogRules_length [OF Inr] False have "rulesAt h (Rules d) \<noteq> []" by auto
    then have "Rules d < length h" by (rule rulesAt_nonempty)
    with Inr False show ?thesis
      by (simp add: createNewBackLog_def copyDirective_def Let_def rulesAt_append_old)
  qed
qed

lemma createNewBackLog_None: "createNewBackLog rtd None now h d e = Inl IdGenError"
  by (simp add: createNewBackLog_def)

lemma createNewBackLog_InrD:
  assumes "createNewBackLog rtd (Some bid) now h d e = Inr (b, h')"
  obtains rs where "initBackLogRules rtd e (rulesAt h (Rules d)) = Inr rs" "rs \<noteq> []"
    "b = \<lparr>BId = bid, Directive = d\<lparr>Rules := length h\<rparr>, CurrentStage = 1,
          HighestStage = int (length (rulesAt h (Rules d))), bLogs = None\<rparr>"
    "h' = h @ [rs[0 := (rs ! 0)\<lparr>StartTime := now\<rparr>]]"
  using assms by (auto simp: createNewBackLog_Some split: sum.splits if_splits)

text \<open>
  Claim C4. When the identifier generator succeeds, \<^verbatim>\<open>createNewBackLog\<close> does not return
  the generator's error; it returns a backlog exactly when the template has a rule and
  every reference of its stages 2 to N is inside the array (otherwise Go panics); and
  the backlog it returns has the generated identifier, \<^verbatim>\<open>CurrentStage = 1\<close>,
  \<^verbatim>\<open>HighestStage\<close> equal to the number of rules of the template, the template's
  directive identifier, and a rule array of its own: its address is not the template's,
  every array of the store before the call (the template's among them) is unchanged, the
  new array has the template's length, its first rule has \<^verbatim>\<open>Status\<close> \<^verbatim>\<open>active\<close> and every
  later rule \<^verbatim>\<open>inactive\<close>.
\<close>

theorem createNewBackLog_backlog:
  "createNewBackLog rtd (Some bid) now h d e \<noteq> Inl IdGenError \<and>
   ((\<exists>b h'. createNewBackLog rtd (Some bid) now h d e = Inr (b, h')) \<longleftrightarrow>
      rulesAt h (Rules d) \<noteq> [] \<and> refsInRange rtd (rulesAt h (Rules d))) \<and>
   (\<forall>b h'. createNewBackLog rtd (Some bid) now h d e = Inr (b, h') \<longrightarrow>
      BId b = bid \<and> CurrentStage b = 1 \<and>
      HighestStage b = int (length (rulesAt h (Rules d))) \<and>
      DId (Directive b) = DId d \<and>
      Rules (Directive b) \<noteq> Rules d \<and>
      (\<forall>a<length h. rulesAt h' a = rulesAt h a) \<and>
      length (rulesAt h' (Rules (Directive b))) = length (rulesAt h (Rules d)) \<and>
      Status (rulesAt h' (Rules (Directive b)) ! 0) = ''active'' \<and>
      (\<forall>i. 0 < i \<and> i < length (rulesAt h (Rules d)) \<longrightarrow>
         Status (rulesAt h' (Rules (Directive b)) ! i) = ''inactive''))"
proof (intro conjI allI impI)
  show "createNewBackLog rtd (Some bid) now h d e \<noteq> Inl IdGenError"
  proof
    assume a: "createNewBackLog rtd (Some bid) now h d e = Inl IdGenError"
    show False
    proof (cases "initBackLogRules rtd e (rulesAt h (Rules d))")
      case (Inl err)
      have "\<not> (\<exists>rs'. initBackLogRules rtd e (rulesAt h (Rules d)) = Inr rs')"
        using Inl by simp
      moreover have "err = IdGenError" using a Inl by (simp add: createNewBackLog_Some)
      ultimately show False
        using Inl initLoop_never_idgen [of rtd e "[0..<length (rulesAt h (Rules d))]" "rulesAt h (Rules d)"]
        by (simp add: initBackLogRules_def)
    next
      case (Inr rs)
      with a show False by (simp add: createNewBackLog_Some split: if_splits)
    qed
  qed
next
  show "(\<exists>b h'. createNewBackLog rtd (Some bid) now h d e = Inr (b, h')) \<longleftrightarrow>
      rulesAt h (Rules d) \<noteq> [] \<and> refsInRange rtd (rulesAt h (Rules d))"
  proof
    assume "\<exists>b h'. createNewBackLog rtd (Some bid) now h d e = Inr (b, h')"
    then obtain b h' where "createNewBackLog rtd (Some bid) now h d e = Inr (b, h')" by blast
    then obtain rs where r: "initBackLogRules rtd e (rulesAt h (Rules d)) = Inr rs" "rs \<noteq> []"
      by (rule createNewBackLog_InrD)
    from initBackLogRules_length [OF r(1)] r(2) have "rulesAt h (Rules d) \<noteq> []" by auto
    moreover from r(1) have "refsInRange rtd (rulesAt h (Rules d))"
      using initBackLogRules_succeeds_iff by blast
    ultimately show "rulesAt h (Rules d) \<noteq> [] \<and> refsInRange rtd (rulesAt h (Rules d))" ..
  next
    assume a: "rulesAt h (Rules d) \<noteq> [] \<and> refsInRange rtd (rulesAt h (Rules d))"
    then obtain rs where r: "initBackLogRules rtd e (rulesAt h (Rules d)) = Inr rs"
      using initBackLogRules_succeeds_iff by blast
    from initBackLogRules_length [OF r] a have "rs \<noteq> []" by auto
    with r show "\<exists>b h'. createNewBackLog rtd (Some bid) now h d e = Inr (b, h')"
      by (simp add: createNewBackLog_Some)
  qed
next
  fix b h' assume c: "createNewBackLog rtd (Some bid) now h d e = Inr (b, h')"
  from c obtain rs where r: "initBackLogRules rtd e (rulesAt h (Rules d)) = Inr rs" "rs \<noteq> []"
    and b: "b = \<lparr>BId = bid, Directive = d\<lparr>Rules := length h\<rparr>, CurrentStage = 1,
          HighestStage = int (length (rulesAt h (Rules d))), bLogs = None\<rparr>"
    and h': "h' = h @ [rs[0 := (rs ! 0)\<lparr>StartTime := now\<rparr>]]"
    by (rule createNewBackLog_InrD)
  have l: "length rs = length (rulesAt h (Rules d))" by (rule initBackLogRules_length [OF r(1)])
  with r(2) have ne: "rulesAt h (Rules d) \<noteq> []" by auto
  then have valid: "Rules d < length h" by (rule rulesAt_nonempty)
  have arr: "rulesAt h' (Rules (Directive b)) = rs[0 := (rs ! 0)\<lparr>StartTime := now\<rparr>]"
    by (simp add: b h')
  show "BId b = bid" "CurrentStage b = 1"
    "HighestStage b = int (length (rulesAt h (Rules d)))" "DId (Directive b) = DId d"
    by (simp_all add: b)
  show "Rules (Directive b) \<noteq> Rules d" using valid by (simp add: b)
  show "length (rulesAt h' (Rules (Directive b))) = length (rulesAt h (Rules d))"
    by (simp add: arr l)
  show "Status (rulesAt h' (Rules (Directive b)) ! 0) = ''active''"
    using initBackLogRules_first [OF r(1) ne] r(2) by (simp add: arr)
  {
    fix a assume "a < length h"
    then show "rulesAt h' a = rulesAt h a" by (simp add: h' rulesAt_append_old)
  }
  {
    fix i assume i: "0 < i \<and> i < length (rulesAt h (Rules d))"
    then have "rs ! i = newRule rtd e (seen (rulesAt h (Rules d)) rs i) (rulesAt h (Rules d) ! i)"
      using initBackLogRules_later [OF r(1), of i] by simp
    then show "Status (rulesAt h' (Rules (Directive b)) ! i) = ''inactive''"
      using i by (simp add: arr newRule_def)
  }
qed


text \<open>
  Claim C5, as amended. The start time of the stage-1 rule of a new backlog is the value
  of the wall clock read during creation (\<^verbatim>\<open>time.Now().Unix()\<close>), whatever the event
  carries.
\<close>

theorem createNewBackLog_start_time:
  assumes "createNewBackLog rtd genID now h d e = Inr (b, h')"
  shows "StartTime (rulesAt h' (Rules (Directive b)) ! 0) = now"
proof -
  from assms obtain bid where g: "genID = Some bid"
    by (cases genID) (simp_all add: createNewBackLog_None)
  from assms [unfolded g] obtain rs where r: "rs \<noteq> []"
    and b: "b = \<lparr>BId = bid, Directive = d\<lparr>Rules := length h\<rparr>, CurrentStage = 1,
          HighestStage = int (length (rulesAt h (Rules d))), bLogs = None\<rparr>"
    and h': "h' = h @ [rs[0 := (rs ! 0)\<lparr>StartTime := now\<rparr>]]"
    by (rule createNewBackLog_InrD)
  from r show ?thesis by (simp add: b h')
qed

lemma createC: "createNewBackLog RefToDigit (Some ''b1'') 2000 [tpl1] dirT evM = Inr (blogC, [tpl1, resM])"
  by (simp add: createNewBackLog_def copyDirective_def rulesAt_def dirT_def blogC_def resM_def
      run_simps tpl1_def evM_def)

theorem createNewBackLog_start_time_witness:
  "createNewBackLog RefToDigit (Some ''b1'') 2000 [tpl1] dirT evM = Inr (blogC, [tpl1, resM]) \<and>
   StartTime (rulesAt [tpl1, resM] (Rules (Directive blogC)) ! 0) = 2000"
proof -
  have c: "createNewBackLog RefToDigit (Some ''b1'') 2000 [tpl1] dirT evM = Inr (blogC, [tpl1, resM])"
    by (rule createC)
  from createNewBackLog_start_time [OF c] c show ?thesis by simp
qed

text \<open>
  Claim C5 as stated fails: an event stamped 1000 that creates a backlog when the clock
  reads 2000 gives the stage-1 rule the start time 2000.
\<close>

theorem createNewBackLog_start_time_counterexample:
  "createNewBackLog RefToDigit (Some ''b1'') 2000 [tpl1] dirT evM = Inr (blogC, [tpl1, resM]) \<and>
   StartTime (rulesAt [tpl1, resM] (Rules (Directive blogC)) ! 0) \<noteq> Timestamp evM"
  by (simp add: createNewBackLog_def copyDirective_def rulesAt_def dirT_def blogC_def resM_def
      run_simps tpl1_def evM_def)

theorem createNewBackLog_backlog_witness:
  "createNewBackLog RefToDigit (Some ''b1'') 2000 [tpl1] dirT evM = Inr (blogC, [tpl1, resM]) \<and>
   rulesAt [tpl1] (Rules dirT) \<noteq> [] \<and> refsInRange RefToDigit (rulesAt [tpl1] (Rules dirT)) \<and>
   CurrentStage blogC = 1 \<and> HighestStage blogC = 2 \<and> Rules (Directive blogC) \<noteq> Rules dirT \<and>
   rulesAt [tpl1, resM] 0 = rulesAt [tpl1] 0 \<and>
   Status (rulesAt [tpl1, resM] (Rules (Directive blogC)) ! 0) = ''active'' \<and>
   Status (rulesAt [tpl1, resM] (Rules (Directive blogC)) ! 1) = ''inactive''"
proof -
  have c: "createNewBackLog RefToDigit (Some ''b1'') 2000 [tpl1] dirT evM = Inr (blogC, [tpl1, resM])"
    by (rule createC)
  have t: "rulesAt [tpl1] (Rules dirT) = tpl1" by (simp add: rulesAt_def dirT_def)
  have l: "length tpl1 = 2" by (simp add: tpl1_def)
  from createNewBackLog_backlog [of RefToDigit "''b1''" 2000 "[tpl1]" dirT evM] c
  have ok: "rulesAt [tpl1] (Rules dirT) \<noteq> [] \<and> refsInRange RefToDigit (rulesAt [tpl1] (Rules dirT))"
    and p: "CurrentStage blogC = 1" "HighestStage blogC = int (length (rulesAt [tpl1] (Rules dirT)))"
      "Rules (Directive blogC) \<noteq> Rules dirT"
      "\<forall>a<length [tpl1]. rulesAt [tpl1, resM] a = rulesAt [tpl1] a"
      "Status (rulesAt [tpl1, resM] (Rules (Directive blogC)) ! 0) = ''active''"
      "\<forall>i. 0 < i \<and> i < length (rulesAt [tpl1] (Rules dirT)) \<longrightarrow>
         Status (rulesAt [tpl1, resM] (Rules (Directive blogC)) ! i) = ''inactive''"
    by blast+
  from p(4) have "rulesAt [tpl1, resM] 0 = rulesAt [tpl1] 0" by simp
  moreover from p(6) have "Status (rulesAt [tpl1, resM] (Rules (Directive blogC)) ! 1) = ''inactive''"
    by (simp add: t l)
  moreover from p(2) have "HighestStage blogC = 2" by (simp add: t l)
  ultimately show ?thesis using c ok p(1) p(3) p(5) by blast
qed

section \<open>Properties of the event loop\<close>

lemma scanBacklogs_firstMatch:
  assumes "groupOK h d m ks"
  shows "scanBacklogs M h d e m ks = Inr (firstMatch M h e m (eligible m ks))"
  using assms
proof (induction ks)
  case Nil
  then show ?case by (simp add: eligible_def)
next
  case (Cons k ks)
  from Cons.prems obtain v where v: "m k = Some v" "BId v = k" "DId (Directive v) = DId d"
    "CurrentStage v \<le> int (length (rulesAt h (Rules (Directive v))))"
    and rest: "groupOK h d m ks"
    by (auto simp: groupOK_def split: option.splits)
  have IH: "scanBacklogs M h d e m ks = Inr (firstMatch M h e m (eligible m ks))"
    by (rule Cons.IH [OF rest])
  show ?case
  proof (cases "CurrentStage v \<le> 1")
    case True
    with v IH show ?thesis by (simp add: eligible_def)
  next
    case False
    with v have el: "eligible m (k # ks) = k # eligible m ks"
      by (simp add: eligible_def)
    from False v(4) have inr: "CurrentStage v - 1 < int (length (rulesAt h (Rules (Directive v))))"
      by simp
    show ?thesis
      using v False inr IH by (simp add: el split: prod.splits)
  qed
qed






lemmas world_simps =
  managerStep_def world0_def worldC_def worldA_def blogA_def blogB_def blogC_def dirT_def
  rulesAt_def matchFrom_def evM_def ev1_def resM_def tpl1_def

lemma stepC:
  "managerStep RefToDigit matchFrom 0 dirT evM [] (Some ''b1'') 2000 world0 =
     Inr (worldC, [Lock 0, TestStage1, GLock, Insert ''b1'', Unlock 0, Process ''b1'' 0, GUnlock])"
proof -
  have c: "createNewBackLog RefToDigit (Some ''b1'') 2000 (heap world0) dirT evM =
      Inr (blogC, [tpl1, resM])"
    using createC by (simp add: world0_def)
  have m: "matchFrom evM (rulesAt (heap world0) (Rules dirT) ! 0) (ConnID evM)"
    by (simp add: world_simps)
  have ne: "rulesAt (heap world0) (Rules dirT) \<noteq> []"
    by (simp add: world_simps)
  have w: "world0\<lparr>allBacklogs :=
              (allBacklogs world0)
                [0 := (allBacklogs world0 ! 0)
                   \<lparr>bl := (bl (allBacklogs world0 ! 0))(BId blogC \<mapsto> blogC\<lparr>bLogs := Some 0\<rparr>)\<rparr>],
              heap := [tpl1, resM]\<rparr> = worldC"
    by (simp add: world0_def worldC_def blogC_def)
  have b: "BId blogC = ''b1''" by (simp add: blogC_def)
  show ?thesis
    unfolding managerStep_def using c m ne w b by (simp add: world0_def)
qed





text \<open>
  Claim C1. For a group whose backlogs belong to the directive of the loop and are at a
  stage of it, one pass on an event does what the specification's scan says: the
  backlogs with \<^verbatim>\<open>CurrentStage\<close> of 1 or less are skipped, each remaining one is tested
  against its rule at index \<^verbatim>\<open>CurrentStage - 1\<close> in scan order, and at the first match
  the pass dispatches the stage-advance of that backlog, makes no further test and
  leaves the world as it was. When no backlog matched, the stage-1 rule is tested next,
  after all those tests; when it does not match either, the pass ends with the world
  unchanged and no error.
\<close>

theorem managerStep_scan_order:
  assumes self: "self < length (allBacklogs w)"
    and ok: "groupOK (heap w) d (bl (allBacklogs w ! self)) ks"
    and ne: "rulesAt (heap w) (Rules d) \<noteq> []"
  shows "case firstMatch M (heap w) e (bl (allBacklogs w ! self))
                (eligible (bl (allBacklogs w ! self)) ks) of
           (tests, Some (k, idx)) \<Rightarrow>
             managerStep rtd M self d e ks genID now w =
               Inr (w, Lock self # tests @ [Dispatch k idx, Unlock self])
         | (tests, None) \<Rightarrow>
             if \<not> M e (rulesAt (heap w) (Rules d) ! 0) (ConnID e)
             then managerStep rtd M self d e ks genID now w =
                    Inr (w, Lock self # tests @ [TestStage1, Unlock self])
             else (case managerStep rtd M self d e ks genID now w of
                     Inl err \<Rightarrow> True
                   | Inr (w', tr) \<Rightarrow>
                       take (Suc (Suc (length tests))) tr = Lock self # tests @ [TestStage1])"
proof -
  have sc: "scanBacklogs M (heap w) d e (bl (allBacklogs w ! self)) ks =
      Inr (firstMatch M (heap w) e (bl (allBacklogs w ! self))
             (eligible (bl (allBacklogs w ! self)) ks))"
    by (rule scanBacklogs_firstMatch [OF ok])
  obtain tests r where fm: "firstMatch M (heap w) e (bl (allBacklogs w ! self))
      (eligible (bl (allBacklogs w ! self)) ks) = (tests, r)"
    by (cases "firstMatch M (heap w) e (bl (allBacklogs w ! self))
      (eligible (bl (allBacklogs w ! self)) ks)")
  show ?thesis
  proof (cases r)
    case (Some p)
    obtain k idx where p: "p = (k, idx)" by (cases p)
    from self sc fm Some p show ?thesis by (simp add: managerStep_def)
  next
    case None
    from self sc fm None ne show ?thesis
      by (auto simp: managerStep_def split: sum.splits error.splits)
  qed
qed

theorem managerStep_scan_order_witness:
  "0 < length (allBacklogs worldA) \<and>
   groupOK (heap worldA) dirT (bl (allBacklogs worldA ! 0)) [''a'', ''b''] \<and>
   rulesAt (heap worldA) (Rules dirT) \<noteq> [] \<and>
   eligible (bl (allBacklogs worldA ! 0)) [''a'', ''b''] = [''b''] \<and>
   managerStep RefToDigit matchFrom 0 dirT evM [''a'', ''b''] None 2000 worldA =
     Inr (worldA, [Lock 0, Test ''b'' 1, Dispatch ''b'' 1, Unlock 0]) \<and>
   managerStep RefToDigit matchFrom 0 dirT ev1 [''a'', ''b''] None 2000 worldA =
     Inr (worldA, [Lock 0, Test ''b'' 1, TestStage1, Unlock 0])"
proof -
  have self: "0 < length (allBacklogs worldA)" by (simp add: worldA_def)
  have ok: "groupOK (heap worldA) dirT (bl (allBacklogs worldA ! 0)) [''a'', ''b'']"
    by (simp add: groupOK_def world_simps)
  have ne: "rulesAt (heap worldA) (Rules dirT) \<noteq> []" by (simp add: world_simps)
  have el: "eligible (bl (allBacklogs worldA ! 0)) [''a'', ''b''] = [''b'']"
    by (simp add: eligible_def world_simps)
  have f1: "firstMatch matchFrom (heap worldA) evM (bl (allBacklogs worldA ! 0)) [''b''] =
      ([Test ''b'' 1], Some (''b'', 1))"
    by (simp add: world_simps)
  have f2: "firstMatch matchFrom (heap worldA) ev1 (bl (allBacklogs worldA ! 0)) [''b''] =
      ([Test ''b'' 1], None)"
    by (simp add: world_simps)
  have m2: "\<not> matchFrom ev1 (rulesAt (heap worldA) (Rules dirT) ! 0) (ConnID ev1)"
    by (simp add: world_simps)
  from managerStep_scan_order [OF self ok ne, of matchFrom evM RefToDigit None 2000,
      unfolded el f1]
  have 1: "managerStep RefToDigit matchFrom 0 dirT evM [''a'', ''b''] None 2000 worldA =
     Inr (worldA, [Lock 0, Test ''b'' 1, Dispatch ''b'' 1, Unlock 0])"
    by simp
  from managerStep_scan_order [OF self ok ne, of matchFrom ev1 RefToDigit None 2000,
      unfolded el f2] m2
  have 2: "managerStep RefToDigit matchFrom 0 dirT ev1 [''a'', ''b''] None 2000 worldA =
     Inr (worldA, [Lock 0, Test ''b'' 1, TestStage1, Unlock 0])"
    by simp
  from self ok ne el 1 2 show ?thesis by blast
qed

text \<open>
  Claim C7. When a pass reaches creation (no backlog matched, the stage-1 rule matches)
  and the identifier generator fails, \<^verbatim>\<open>createNewBackLog\<close> returns the error, the pass
  logs a warning, releases the group lock and returns with the world unchanged (no
  backlog inserted), and the loop goes on with the events that follow from that same
  world.
\<close>

theorem managerStep_idgen_failure:
  assumes self: "self < length (allBacklogs w)"
    and sc: "scanBacklogs M (heap w) d e (bl (allBacklogs w ! self)) ks = Inr (tests, None)"
    and ne: "rulesAt (heap w) (Rules d) \<noteq> []"
    and m1: "M e (rulesAt (heap w) (Rules d) ! 0) (ConnID e)"
  shows "createNewBackLog rtd None now (heap w) d e = Inl IdGenError \<and>
         managerStep rtd M self d e ks None now w =
           Inr (w, Lock self # tests @ [TestStage1, Warn, Unlock self]) \<and>
         manager rtd M self d w ((e, ks, None, now) # ch) =
           (case manager rtd M self d w ch of
              Inl err \<Rightarrow> Inl err
            | Inr (w2, tr2) \<Rightarrow>
                Inr (w2, (Lock self # tests @ [TestStage1, Warn, Unlock self]) @ tr2))"
proof -
  have c: "createNewBackLog rtd None now (heap w) d e = Inl IdGenError"
    by (rule createNewBackLog_None)
  have st: "managerStep rtd M self d e ks None now w =
           Inr (w, Lock self # tests @ [TestStage1, Warn, Unlock self])"
    using self sc ne m1 c by (simp add: managerStep_def)
  from c st show ?thesis by simp
qed

theorem managerStep_idgen_failure_witness:
  "0 < length (allBacklogs world0) \<and>
   scanBacklogs matchFrom (heap world0) dirT evM (bl (allBacklogs world0 ! 0)) [] = Inr ([], None) \<and>
   rulesAt (heap world0) (Rules dirT) \<noteq> [] \<and>
   matchFrom evM (rulesAt (heap world0) (Rules dirT) ! 0) (ConnID evM) \<and>
   managerStep RefToDigit matchFrom 0 dirT evM [] None 2000 world0 =
     Inr (world0, [Lock 0, TestStage1, Warn, Unlock 0]) \<and>
   manager RefToDigit matchFrom 0 dirT world0
       [(evM, [], None, 2000), (evM, [], Some ''b1'', 2000)] =
     Inr (worldC,
       [Lock 0, TestStage1, Warn, Unlock 0,
        Lock 0, TestStage1, GLock, Insert ''b1'', Unlock 0, Process ''b1'' 0, GUnlock])"
proof -
  have self: "0 < length (allBacklogs world0)" by (simp add: world0_def)
  have sc: "scanBacklogs matchFrom (heap world0) dirT evM (bl (allBacklogs world0 ! 0)) [] =
      Inr ([], None)"
    by simp
  have ne: "rulesAt (heap world0) (Rules dirT) \<noteq> []" by (simp add: world_simps)
  have m1: "matchFrom evM (rulesAt (heap world0) (Rules dirT) ! 0) (ConnID evM)"
    by (simp add: world_simps)
  note t = managerStep_idgen_failure [OF self sc ne m1, of RefToDigit 2000
      "[(evM, [], Some ''b1'', 2000)]"]
  have rest: "manager RefToDigit matchFrom 0 dirT world0 [(evM, [], Some ''b1'', 2000)] =
      Inr (worldC, [Lock 0, TestStage1, GLock, Insert ''b1'', Unlock 0, Process ''b1'' 0, GUnlock])"
    by (simp add: stepC)
  from t have 1: "managerStep RefToDigit matchFrom 0 dirT evM [] None 2000 world0 =
     Inr (world0, [Lock 0, TestStage1, Warn, Unlock 0])"
    by simp
  from t rest have 2: "manager RefToDigit matchFrom 0 dirT world0
       [(evM, [], None, 2000), (evM, [], Some ''b1'', 2000)] =
     Inr (worldC,
       [Lock 0, TestStage1, Warn, Unlock 0,
        Lock 0, TestStage1, GLock, Insert ''b1'', Unlock 0, Process ''b1'' 0, GUnlock])"
    by simp
  from self sc ne m1 1 2 show ?thesis by blast
qed

section \<open>Properties of removal and the watchdog\<close>

text \<open>
  Claim C8. For a message that points to a group, \<^verbatim>\<open>removeBackLog\<close> returns; its trace
  is the group's exclusive lock, the global lock, the deletion, and the two releases in
  reverse order; afterwards the group's map has no entry under the identifier of the
  message and every other entry as before, the group's \<^verbatim>\<open>id\<close>, every other group and
  the store of rule arrays are unchanged; when the map had no entry under the identifier
  the world is unchanged; and running the same message again changes nothing.
\<close>

theorem removeBackLog_deletes_entry:
  assumes "blogs m < length (allBacklogs w)"
  shows "\<exists>w'. removeBackLog w m =
           Inr (w', [Lock (blogs m), GLock, Delete (ID m), GUnlock, Unlock (blogs m)]) \<and>
         length (allBacklogs w') = length (allBacklogs w) \<and> heap w' = heap w \<and>
         gid (allBacklogs w' ! blogs m) = gid (allBacklogs w ! blogs m) \<and>
         bl (allBacklogs w' ! blogs m) (ID m) = None \<and>
         (\<forall>k. k \<noteq> ID m \<longrightarrow>
            bl (allBacklogs w' ! blogs m) k = bl (allBacklogs w ! blogs m) k) \<and>
         (\<forall>j. j \<noteq> blogs m \<longrightarrow> allBacklogs w' ! j = allBacklogs w ! j) \<and>
         (bl (allBacklogs w ! blogs m) (ID m) = None \<longrightarrow> w' = w) \<and>
         removeBackLog w' m =
           Inr (w', [Lock (blogs m), GLock, Delete (ID m), GUnlock, Unlock (blogs m)])"
proof -
  let ?g = "allBacklogs w ! blogs m"
  let ?w = "w\<lparr>allBacklogs := (allBacklogs w)[blogs m := ?g\<lparr>bl := (bl ?g)(ID m := None)\<rparr>]\<rparr>"
  have r: "removeBackLog w m =
      Inr (?w, [Lock (blogs m), GLock, Delete (ID m), GUnlock, Unlock (blogs m)])"
    using assms by (simp add: removeBackLog_def)
  have noop: "?w = w" if "bl ?g (ID m) = None"
  proof -
    from that have "(bl ?g)(ID m := None) = bl ?g" by (simp add: fun_upd_idem)
    then show ?thesis by simp
  qed
  have again: "removeBackLog ?w m =
      Inr (?w, [Lock (blogs m), GLock, Delete (ID m), GUnlock, Unlock (blogs m)])"
    using assms by (simp add: removeBackLog_def)
  show ?thesis
    using assms r noop again
    by (intro exI [of _ ?w]) simp
qed

theorem removeBackLog_deletes_entry_witness:
  "blogs msg1 < length (allBacklogs worldC) \<and>
   removeBackLog worldC msg1 = Inr (worldR, [Lock 0, GLock, Delete ''b1'', GUnlock, Unlock 0]) \<and>
   bl (allBacklogs worldR ! 0) ''b1'' = None \<and>
   removeBackLog worldR msg1 = Inr (worldR, [Lock 0, GLock, Delete ''b1'', GUnlock, Unlock 0])"
proof -
  have v: "blogs msg1 < length (allBacklogs worldC)"
    by (simp add: msg1_def worldC_def)
  have r: "removeBackLog worldC msg1 =
      Inr (worldR, [Lock 0, GLock, Delete ''b1'', GUnlock, Unlock 0])"
    by (simp add: removeBackLog_def msg1_def worldC_def worldR_def)
  from removeBackLog_deletes_entry [OF v] r
  have "bl (allBacklogs worldR ! blogs msg1) (ID msg1) = None"
    and "removeBackLog worldR msg1 =
      Inr (worldR, [Lock (blogs msg1), GLock, Delete (ID msg1), GUnlock, Unlock (blogs msg1)])"
    by auto
  then have "bl (allBacklogs worldR ! 0) ''b1'' = None"
    and "removeBackLog worldR msg1 = Inr (worldR, [Lock 0, GLock, Delete ''b1'', GUnlock, Unlock 0])"
    by (simp_all add: msg1_def)
  with v r show ?thesis by blast
qed

lemma count_CheckExpired_map:
  "count_list (map (CheckExpired i) xs) (CheckExpired n k) = (if n = i then count_list xs k else 0)"
  by (induction xs) auto

lemma count_distinct:
  "distinct xs \<Longrightarrow> count_list xs k = (if k \<in> set xs then 1 else 0)"
  by (induction xs) auto

lemma sweepGroups_fst_Cons:
  "fst (sweepGroups ord i (g # gs) acc) =
     fst (sweepGroups ord (Suc i) gs (acc + int (card (dom (bl g)))))"
  by (simp add: Let_def split: prod.splits)

lemma sweepGroups_counter:
  "fst (sweepGroups ord i gs acc) = acc + (\<Sum>g\<leftarrow>gs. int (card (dom (bl g))))"
proof (induction gs arbitrary: i acc)
  case Nil
  then show ?case by simp
next
  case (Cons g gs)
  show ?case
    unfolding sweepGroups_fst_Cons Cons.IH by simp
qed

lemma sweepGroups_calls:
  assumes "\<forall>j<length gs. distinct (ord (i + j)) \<and> set (ord (i + j)) = dom (bl (gs ! j))"
  shows "count_list (snd (sweepGroups ord i gs acc)) (CheckExpired n k) =
     (if i \<le> n \<and> n < i + length gs \<and> k \<in> dom (bl (gs ! (n - i))) then 1 else 0)"
  using assms
proof (induction gs arbitrary: i acc)
  case Nil
  then show ?case by simp
next
  case (Cons g gs)
  from Cons.prems [rule_format, of 0] have d: "distinct (ord i)" and s: "set (ord i) = dom (bl g)"
    by simp_all
  have rest: "\<forall>j<length gs. distinct (ord (Suc i + j)) \<and> set (ord (Suc i + j)) = dom (bl (gs ! j))"
  proof (intro allI impI)
    fix j assume "j < length gs"
    with Cons.prems [rule_format, of "Suc j"]
    show "distinct (ord (Suc i + j)) \<and> set (ord (Suc i + j)) = dom (bl (gs ! j))" by simp
  qed
  have IH: "count_list (snd (sweepGroups ord (Suc i) gs acc')) (CheckExpired n k) =
     (if Suc i \<le> n \<and> n < Suc i + length gs \<and> k \<in> dom (bl (gs ! (n - Suc i))) then 1 else 0)"
    for acc'
    by (rule Cons.IH [OF rest])
  have fin: "finite (dom (bl g))" using s [symmetric] by simp
  have here: "count_list (map (CheckExpired i) (ord i)) (CheckExpired n k) =
      (if n = i \<and> k \<in> dom (bl g) then 1 else 0)"
    using d s by (simp add: count_CheckExpired_map count_distinct)
  have rhs: "(if i \<le> n \<and> n < i + length (g # gs) \<and> k \<in> dom (bl ((g # gs) ! (n - i)))
        then 1 else 0) =
      (if n = i \<and> k \<in> dom (bl g) then 1 else 0) +
      (if Suc i \<le> n \<and> n < Suc i + length gs \<and> k \<in> dom (bl (gs ! (n - Suc i)))
        then 1 else (0::nat))"
  proof (cases "n = i")
    case True
    then show ?thesis by simp
  next
    case False
    show ?thesis
    proof (cases "i < n")
      case True
      then have "(g # gs) ! (n - i) = gs ! (n - Suc i)" by (simp add: nth_Cons')
      with True show ?thesis by simp
    next
      case False
      with \<open>n \<noteq> i\<close> show ?thesis by simp
    qed
  qed
  show ?case
  proof (cases "card (dom (bl g)) = 0")
    case True
    with fin have e: "dom (bl g) = {}" by simp
    have "snd (sweepGroups ord i (g # gs) acc) =
        [GRLock, RLock i, RUnlock i, GRUnlock] @ snd (sweepGroups ord (Suc i) gs acc)"
      using True by (simp add: Let_def split: prod.splits)
    then have "count_list (snd (sweepGroups ord i (g # gs) acc)) (CheckExpired n k) =
        count_list (snd (sweepGroups ord (Suc i) gs acc)) (CheckExpired n k)"
      by simp
    also have "\<dots> = (if n = i \<and> k \<in> dom (bl g) then 1 else 0) +
      (if Suc i \<le> n \<and> n < Suc i + length gs \<and> k \<in> dom (bl (gs ! (n - Suc i)))
        then 1 else (0::nat))"
      unfolding IH using e by simp
    finally show ?thesis unfolding rhs .
  next
    case False
    have "snd (sweepGroups ord i (g # gs) acc) =
        [GRLock, RLock i] @ map (CheckExpired i) (ord i) @ [RUnlock i, GRUnlock] @
        snd (sweepGroups ord (Suc i) gs (acc + int (card (dom (bl g)))))"
      using False by (simp add: Let_def split: prod.splits)
    then have "count_list (snd (sweepGroups ord i (g # gs) acc)) (CheckExpired n k) =
        count_list (map (CheckExpired i) (ord i)) (CheckExpired n k) +
        count_list (snd (sweepGroups ord (Suc i) gs (acc + int (card (dom (bl g))))))
          (CheckExpired n k)"
      by simp
    also have "\<dots> = (if n = i \<and> k \<in> dom (bl g) then 1 else 0) +
      (if Suc i \<le> n \<and> n < Suc i + length gs \<and> k \<in> dom (bl (gs ! (n - Suc i)))
        then 1 else (0::nat))"
      unfolding IH here by simp
    finally show ?thesis unfolding rhs .
  qed
qed

text \<open>
  Claim C9. When each group's key order lists the keys of its map once each, the value
  that one tick of the watchdog publishes as the open-backlog counter is the sum of the
  sizes of the maps of all groups, and the tick calls \<^verbatim>\<open>checkExpired\<close> exactly once on
  every backlog of every group and on nothing else; a group with an empty map adds
  nothing to the counter and gets no call.
\<close>

theorem watchdogTick_counter_and_calls:
  assumes "\<forall>i<length gs. distinct (ord i) \<and> set (ord i) = dom (bl (gs ! i))"
  shows "fst (watchdogTick ord gs) = (\<Sum>g\<leftarrow>gs. int (card (dom (bl g)))) \<and>
         (\<forall>i k. count_list (snd (watchdogTick ord gs)) (CheckExpired i k) =
            (if i < length gs \<and> k \<in> dom (bl (gs ! i)) then 1 else 0))"
  using sweepGroups_counter [of ord 0 gs 0] sweepGroups_calls [of gs ord 0 0] assms
  by (simp add: watchdogTick_def)

theorem watchdogTick_counter_and_calls_witness:
  "distinct (ordW 0) \<and> set (ordW 0) = dom (bl ((allBacklogs worldA @ allBacklogs world0) ! 0)) \<and>
   distinct (ordW 1) \<and> set (ordW 1) = dom (bl ((allBacklogs worldA @ allBacklogs world0) ! 1)) \<and>
   watchdogTick ordW (allBacklogs worldA @ allBacklogs world0) =
     (2, [GRLock, RLock 0, CheckExpired 0 ''b'', CheckExpired 0 ''a'', RUnlock 0, GRUnlock,
          GRLock, RLock 1, RUnlock 1, GRUnlock]) \<and>
   fst (watchdogTick ordW (allBacklogs worldA @ allBacklogs world0)) = 2 \<and>
   count_list (snd (watchdogTick ordW (allBacklogs worldA @ allBacklogs world0)))
     (CheckExpired 0 ''a'') = 1 \<and>
   count_list (snd (watchdogTick ordW (allBacklogs worldA @ allBacklogs world0)))
     (CheckExpired 1 ''a'') = 0"
proof -
  let ?gs = "allBacklogs worldA @ allBacklogs world0"
  have gs: "?gs = [\<lparr>gid = 5, bl = [''a'' \<mapsto> blogA, ''b'' \<mapsto> blogB]\<rparr>, \<lparr>gid = 5, bl = Map.empty\<rparr>]"
    by (simp add: worldA_def world0_def)
  have o0: "distinct (ordW 0) \<and> set (ordW 0) = dom (bl (?gs ! 0))"
    and o1: "distinct (ordW 1) \<and> set (ordW 1) = dom (bl (?gs ! 1))"
    by (auto simp: gs ordW_def)
  have h: "\<forall>i<length ?gs. distinct (ordW i) \<and> set (ordW i) = dom (bl (?gs ! i))"
    using o0 o1 by (simp add: gs less_Suc_eq)
  have c2: "card (dom [''a'' \<mapsto> blogA, ''b'' \<mapsto> blogB]) = 2"
    by simp
  have run: "watchdogTick ordW ?gs =
     (2, [GRLock, RLock 0, CheckExpired 0 ''b'', CheckExpired 0 ''a'', RUnlock 0, GRUnlock,
          GRLock, RLock 1, RUnlock 1, GRUnlock])"
    unfolding gs by (simp add: watchdogTick_def ordW_def Let_def)
  have sum: "(\<Sum>g\<leftarrow>?gs. int (card (dom (bl g)))) = 2"
    unfolding gs by simp
  have a: "0 < length ?gs \<and> ''a'' \<in> dom (bl (?gs ! 0))"
    and b: "\<not> (1 < length ?gs \<and> ''a'' \<in> dom (bl (?gs ! 1)))"
    by (simp_all add: gs)
  from watchdogTick_counter_and_calls [OF h] sum a b
  have "fst (watchdogTick ordW ?gs) = 2"
    and "count_list (snd (watchdogTick ordW ?gs)) (CheckExpired 0 ''a'') = 1"
    and "count_list (snd (watchdogTick ordW ?gs)) (CheckExpired 1 ''a'') = 0"
    by simp_all
  with o0 o1 run show ?thesis by blast
qed

end
